theory Spec2Isabelle
  imports Main "HOL-Library.Char_ord" "HOL-Library.List_Lexorder" "HOL-Library.Multiset"
begin

section \<open>Bag of words: the serial baseline and the MPI variant\<close>

text \<open>
  The development embeds \<^verbatim>\<open>serial.cpp\<close> (the baseline, \<^verbatim>\<open>bow::run_serial\<close>) and
  \<^verbatim>\<open>paralelo.cpp\<close> (the MPI variant, \<^verbatim>\<open>bow::run_parallel\<close>).

  Conventions of the embedding.
  \<^item> A \<^verbatim>\<open>std::string\<close> is a \<open>string\<close>: a list of 8-bit \<open>char\<close>s. The order of
    \<^verbatim>\<open>std::string\<close> (\<^verbatim>\<open>char_traits<char>::compare\<close>: bytes as unsigned values,
    lexicographically, a proper prefix first) is the order of \<open>Char_ord\<close> and
    \<open>List_Lexorder\<close>.
  \<^item> A \<^verbatim>\<open>std::map<std::string,int>\<close> is its sequence of entries in iteration order: an
    association list in ascending key order. A \<^verbatim>\<open>std::set<std::string>\<close> is its
    sequence of elements in iteration order: an ascending list.
  \<^item> The program never calls \<^verbatim>\<open>setlocale\<close>, so \<^verbatim>\<open>std::tolower\<close> and
    \<^verbatim>\<open>std::isalnum\<close> are those of the "C" locale. For a byte from 0x80 on, the source
    passes \<^verbatim>\<open>isalnum\<close> a \<^verbatim>\<open>char\<close> that is negative where \<^verbatim>\<open>char\<close> is signed; the
    C libraries in use answer 0 there, and so does the model.
  \<^item> Occurrence counts are \<open>int\<close>: a count reaches \<^verbatim>\<open>INT_MAX\<close> only in a document of
    more than 2 GiB, where the source's signed increment has no defined meaning, in the
    baseline and in the MPI variant alike.
  \<^item> A \<^verbatim>\<open>size_t\<close> is a \<open>nat\<close>. The MPI variant narrows sizes and indices to
    \<^verbatim>\<open>int\<close> and adds and multiplies them as \<^verbatim>\<open>int\<close>s. Such a value is never
    negative while it is in range, so it is a \<open>nat\<close> checked against \<^verbatim>\<open>INT_MAX\<close>; a
    value that leaves the range (a negative count after the narrowing, or a signed
    overflow, after which MPI or \<^verbatim>\<open>resize\<close> aborts the run) ends the run with
    \<open>Int_Out_Of_Range\<close>. The baseline has no such \<^verbatim>\<open>int\<close>.
  \<^item> The file system is a partial map from a path to the bytes of the file; it does not
    change during a run. \<^verbatim>\<open>std::cerr\<close> is the list of diagnostics printed.
  \<^item> A run of the MPI variant is modelled in global view: a value that every rank holds
    is a list indexed by rank, and a collective operation is a function on such lists.
    Wall-clock timing is left out.
\<close>

subsection \<open>Characters\<close>

definition isalnum :: "char \<Rightarrow> bool" where
  "isalnum c =
     (let n = (of_char c :: nat)
      in (48 \<le> n \<and> n \<le> 57) \<or> (65 \<le> n \<and> n \<le> 90) \<or> (97 \<le> n \<and> n \<le> 122))"

definition tolower :: "char \<Rightarrow> char" where
  "tolower c =
     (let n = (of_char c :: nat)
      in if 65 \<le> n \<and> n \<le> 90 then char_of (n + 32) else c)"

definition newline :: char where
  "newline = CHR 0x0A"

subsection \<open>Tokenizer and local counter (both translation units, same text)\<close>

fun tokenize_loop :: "string \<Rightarrow> string list \<Rightarrow> string \<Rightarrow> string list \<times> string" where
  "tokenize_loop [] tokens current_token = (tokens, current_token)"
| "tokenize_loop (raw # rest) tokens current_token =
     (let lower = tolower raw
      in if isalnum lower \<or> lower = CHR ''_''
         then tokenize_loop rest tokens (current_token @ [lower])
         else if current_token \<noteq> []
           then tokenize_loop rest (tokens @ [current_token]) []
           else tokenize_loop rest tokens current_token)"

definition tokenize_document :: "string \<Rightarrow> string list" where
  "tokenize_document content =
     (let (tokens, current_token) = tokenize_loop content [] []
      in if current_token \<noteq> [] then tokens @ [current_token] else tokens)"

type_synonym term_count = "(string \<times> int) list"

text \<open>\<^verbatim>\<open>++word_counts[token]\<close>: a missing key is inserted with 0 and then incremented.\<close>

fun map_increment :: "string \<Rightarrow> term_count \<Rightarrow> term_count" where
  "map_increment k [] = [(k, 1)]"
| "map_increment k ((k', v) # m) =
     (if k = k' then (k', v + 1) # m
      else if k < k' then (k, 1) # (k', v) # m
      else (k', v) # map_increment k m)"

definition count_tokens :: "string list \<Rightarrow> term_count" where
  "count_tokens tokens = fold map_increment tokens []"

text \<open>\<^verbatim>\<open>m.find(word)\<close>, with 0 where the word is absent.\<close>

definition count_of :: "term_count \<Rightarrow> string \<Rightarrow> int" where
  "count_of document_map word = (case map_of document_map word of Some v \<Rightarrow> v | None \<Rightarrow> 0)"

subsection \<open>Vocabulary serialization (paralelo.cpp)\<close>

definition join_words_with_newline :: "string list \<Rightarrow> string" where
  "join_words_with_newline words =
     fold (\<lambda>word serialized. serialized @ word @ [newline]) words []"

fun split_loop :: "string \<Rightarrow> string list \<Rightarrow> string \<Rightarrow> string list \<times> string" where
  "split_loop [] parts current = (parts, current)"
| "split_loop (ch # rest) parts current =
     (if ch = newline
      then (if current \<noteq> [] then split_loop rest (parts @ [current]) []
            else split_loop rest parts current)
      else split_loop rest parts (current @ [ch]))"

definition split_by_newline :: "string \<Rightarrow> string list" where
  "split_by_newline data =
     (let (parts, current) = split_loop data [] []
      in if current \<noteq> [] then parts @ [current] else parts)"

subsection \<open>The environment: files, diagnostics, the written table\<close>

type_synonym filesystem = "string \<rightharpoonup> string"

datatype diagnostic =
  Cannot_Open_File string
| No_Documents
| No_Valid_Document
| No_Rows_Generated

definition read_file :: "filesystem \<Rightarrow> string \<Rightarrow> string \<times> diagnostic list" where
  "read_file fs path =
     (case fs path of None \<Rightarrow> ([], [Cannot_Open_File path]) | Some bytes \<Rightarrow> (bytes, []))"

text \<open>\<^verbatim>\<open>std::filesystem::path(p).filename().string()\<close> on POSIX: what follows the last
  slash.\<close>

definition filename :: "string \<Rightarrow> string" where
  "filename p = rev (takeWhile (\<lambda>c. c \<noteq> CHR ''/'') (rev p))"

text \<open>The arguments of the one call of \<^verbatim>\<open>write_csv\<close> in a run.\<close>

record csv =
  csv_vocabulary :: "string list"
  csv_doc_names :: "string list"
  csv_matrix :: "int list list"

text \<open>\<^verbatim>\<open>output << value\<close> for an \<^verbatim>\<open>int\<close>, on a stream with its default flags: the
  decimal digits, after a minus sign when the value is negative.\<close>

function decimal_digits :: "nat \<Rightarrow> string" where
  "decimal_digits n =
     (if n < 10 then [char_of (48 + n)]
      else decimal_digits (n div 10) @ [char_of (48 + n mod 10)])"
  by pat_completeness auto
termination
  by (relation "measure id") auto

declare decimal_digits.simps [simp del]

definition show_int :: "int \<Rightarrow> string" where
  "show_int v =
     (if v < 0 then CHR ''-'' # decimal_digits (nat (- v)) else decimal_digits (nat v))"

text \<open>The bytes \<^verbatim>\<open>write_csv\<close> puts in the output file once it has opened it (the same
  text in both translation units): the header, then the row of every \<open>i\<close> below
  \<^verbatim>\<open>matrix.size()\<close>.\<close>

definition write_csv :: "int list list \<Rightarrow> string list \<Rightarrow> string list \<Rightarrow> string" where
  "write_csv matrix vocabulary doc_names =
     (let header =
            fold (\<lambda>word output. output @ [CHR '',''] @ word) vocabulary ''document'' @ [newline]
      in fold (\<lambda>i output.
                 fold (\<lambda>value output. output @ [CHR '',''] @ show_int value) (matrix ! i)
                   (output @ doc_names ! i) @ [newline])
           [0..<length matrix] header)"

subsection \<open>The baseline (serial.cpp)\<close>

text \<open>\<^verbatim>\<open>ordered_unique_tokens.emplace(key, 0)\<close>: inserts only where the key is absent.\<close>

definition map_emplace :: "string \<Rightarrow> int \<Rightarrow> term_count \<Rightarrow> term_count" where
  "map_emplace k v m = insort_insert_key fst (k, v) m"

definition build_vocabulary :: "term_count list \<Rightarrow> string list" where
  "build_vocabulary document_counts =
     (let ordered_unique_tokens =
            fold (\<lambda>document_map acc. fold (\<lambda>entry. map_emplace (fst entry) 0) document_map acc)
              document_counts []
      in map fst ordered_unique_tokens)"

definition build_matrix :: "term_count list \<Rightarrow> string list \<Rightarrow> int list list" where
  "build_matrix document_counts vocabulary =
     map (\<lambda>document_map. map (count_of document_map) vocabulary) document_counts"

fun serial_loop ::
  "filesystem \<Rightarrow> string list \<Rightarrow> term_count list \<times> string list \<times> diagnostic list \<Rightarrow>
   term_count list \<times> string list \<times> diagnostic list" where
  "serial_loop fs [] st = st"
| "serial_loop fs (document_path # rest) (document_counts, processed_names, err) =
     (let (content, e) = read_file fs document_path
      in if content = []
         then serial_loop fs rest (document_counts, processed_names, err @ e)
         else let tokens = tokenize_document content
              in serial_loop fs rest
                   (document_counts @ [count_tokens tokens],
                    processed_names @ [filename document_path], err @ e))"

record serial_outcome =
  ser_stderr :: "diagnostic list"
  ser_written :: "csv option"

definition run_serial :: "filesystem \<Rightarrow> string list \<Rightarrow> serial_outcome" where
  "run_serial fs document_paths =
     (if document_paths = []
      then \<lparr>ser_stderr = [No_Documents], ser_written = None\<rparr>
      else
        let (document_counts, processed_names, err) = serial_loop fs document_paths ([], [], [])
        in if document_counts = []
           then \<lparr>ser_stderr = err @ [No_Valid_Document], ser_written = None\<rparr>
           else
             let vocabulary = build_vocabulary document_counts;
                 matrix = build_matrix document_counts vocabulary
             in \<lparr>ser_stderr = err,
                 ser_written = Some \<lparr>csv_vocabulary = vocabulary,
                   csv_doc_names = processed_names, csv_matrix = matrix\<rparr>\<rparr>)"

subsection \<open>C ints (32 bits)\<close>

definition int_max :: nat where
  "int_max = 2147483647"

datatype failure = Int_Out_Of_Range

text \<open>\<^verbatim>\<open>static_cast<int>(size)\<close>, and the result of an \<^verbatim>\<open>int\<close> addition or
  multiplication.\<close>

definition to_int :: "nat \<Rightarrow> failure + nat" where
  "to_int n = (if n \<le> int_max then Inr n else Inl Int_Out_Of_Range)"

text \<open>Every rank computes an \<^verbatim>\<open>int\<close> of its own: the run goes on when all are in
  range.\<close>

definition each_int :: "nat list \<Rightarrow> failure + nat list" where
  "each_int ns = (if list_all (\<lambda>n. n \<le> int_max) ns then Inr ns else Inl Int_Out_Of_Range)"

text \<open>What every rank holds once no rank has failed.\<close>

fun all_ranks :: "(failure + 'a) list \<Rightarrow> failure + 'a list" where
  "all_ranks [] = Inr []"
| "all_ranks (Inl f # rs) = Inl f"
| "all_ranks (Inr x # rs) = (case all_ranks rs of Inl f \<Rightarrow> Inl f | Inr xs \<Rightarrow> Inr (x # xs))"

subsection \<open>The MPI variant (paralelo.cpp)\<close>

text \<open>\<^verbatim>\<open>for (idx = world_rank; idx < D; idx += world_size) body\<close>. With a stride of 0 the
  loop does not end, so its result is optional.\<close>

partial_function (option) strided_for ::
  "nat \<Rightarrow> nat \<Rightarrow> nat \<Rightarrow> (nat \<Rightarrow> 's \<Rightarrow> 's) \<Rightarrow> 's \<Rightarrow> 's option" where
  "strided_for idx D W body s =
     (if idx < D then strided_for (idx + W) D W body (body idx s) else Some s)"

declare strided_for.simps [code]

type_synonym local_state = "term_count list \<times> nat list \<times> diagnostic list"

text \<open>The body of the loop of lines 146 to 156; \<^verbatim>\<open>static_cast<int>(idx)\<close> is the
  index pushed.\<close>

definition local_body ::
  "filesystem \<Rightarrow> string list \<Rightarrow> nat \<Rightarrow> failure + local_state \<Rightarrow> failure + local_state" where
  "local_body fs document_paths idx st =
     (case st of
        Inl f \<Rightarrow> Inl f
      | Inr (local_counts, local_doc_indices, err) \<Rightarrow>
          let path = document_paths ! idx;
              (content, e) = read_file fs path
          in if content = []
             then Inr (local_counts, local_doc_indices, err @ e)
             else let tokens = tokenize_document content
                  in case to_int idx of
                       Inl f \<Rightarrow> Inl f
                     | Inr int_idx \<Rightarrow>
                         Inr (local_counts @ [count_tokens tokens],
                              local_doc_indices @ [int_idx], err @ e))"

definition local_documents ::
  "filesystem \<Rightarrow> string list \<Rightarrow> nat \<Rightarrow> nat \<Rightarrow> (failure + local_state) option" where
  "local_documents fs document_paths world_size world_rank =
     strided_for world_rank (length document_paths) world_size
       (local_body fs document_paths) (Inr ([], [], []))"

definition local_vocab :: "term_count list \<Rightarrow> string list" where
  "local_vocab local_counts =
     fold (\<lambda>doc_map acc. fold (\<lambda>entry. insort_insert (fst entry)) doc_map acc) local_counts []"

text \<open>The collectives, all rooted at rank 0. \<open>sends\<close> lists what each rank sends, in
  rank order; the receive buffer is the root's.\<close>

datatype mpi_call = MPI_Gather | MPI_Gatherv | MPI_Bcast | MPI_Barrier | MPI_Reduce

definition mpi_gather :: "'a list \<Rightarrow> 'a list \<Rightarrow> 'a list" where
  "mpi_gather sends recvbuf = fold (\<lambda>i buf. buf[i := sends ! i]) [0..<length sends] recvbuf"

definition write_block :: "'a list \<Rightarrow> nat \<Rightarrow> 'a list \<Rightarrow> 'a list" where
  "write_block buf offset block = take offset buf @ block @ drop (offset + length block) buf"

definition mpi_gatherv :: "'a list list \<Rightarrow> nat list \<Rightarrow> nat list \<Rightarrow> 'a list \<Rightarrow> 'a list" where
  "mpi_gatherv sends recvcounts displs recvbuf =
     fold (\<lambda>i buf. write_block buf (displs ! i) (take (recvcounts ! i) (sends ! i)))
       [0..<length sends] recvbuf"

text \<open>\<open>bufs\<close> lists every rank's buffer before the call; the root's comes first.\<close>

definition mpi_bcast :: "nat \<Rightarrow> 'a list list \<Rightarrow> 'a list list" where
  "mpi_bcast cnt bufs = map (\<lambda>buf. take cnt (hd bufs) @ drop cnt buf) bufs"

text \<open>The layout loops: \<^verbatim>\<open>displs[i] = running; running += counts[i]\<close>, the sum an
  \<^verbatim>\<open>int\<close>.\<close>

fun layout :: "nat list \<Rightarrow> nat \<Rightarrow> failure + nat list \<times> nat" where
  "layout [] running = Inr ([], running)"
| "layout (c # cs) running =
     (case to_int (running + c) of
        Inl f \<Rightarrow> Inl f
      | Inr next_running \<Rightarrow>
          (case layout cs next_running of
             Inl f \<Rightarrow> Inl f
           | Inr (displs, t) \<Rightarrow> Inr (running # displs, t)))"

text \<open>\<^verbatim>\<open>std::accumulate(row_counts.begin(), row_counts.end(), 0, std::plus<int>())\<close>.\<close>

definition int_sum :: "nat list \<Rightarrow> failure + nat" where
  "int_sum ns = (case layout ns 0 of Inl f \<Rightarrow> Inl f | Inr (displs, t) \<Rightarrow> Inr t)"

definition union_chunks :: "nat \<Rightarrow> nat list \<Rightarrow> nat list \<Rightarrow> string \<Rightarrow> string list" where
  "union_chunks world_size vocab_displs vocab_byte_counts global_vocab_buffer =
     fold (\<lambda>i global_vocab_set.
             let offset = vocab_displs ! i;
                 len = vocab_byte_counts ! i
             in if len = 0 then global_vocab_set
                else let chunk = take len (drop offset global_vocab_buffer);
                         words = split_by_newline chunk
                     in fold insort_insert words global_vocab_set)
       [0..<world_size] []"

text \<open>Lines 158 to 219: from every rank's local counts to every rank's
  \<^verbatim>\<open>global_vocabulary\<close>.\<close>

definition synchronize_vocabulary :: "term_count list list \<Rightarrow> failure + string list list" where
  "synchronize_vocabulary all_local_counts =
     (let world_size = length all_local_counts;
          local_vocab_serialized =
            map (\<lambda>local_counts. join_words_with_newline (local_vocab local_counts))
              all_local_counts
      in case each_int (map length local_vocab_serialized) of
           Inl f \<Rightarrow> Inl f
         | Inr local_vocab_bytes \<Rightarrow>
             let vocab_byte_counts = mpi_gather local_vocab_bytes (replicate world_size 0)
             in case layout vocab_byte_counts 0 of
                  Inl f \<Rightarrow> Inl f
                | Inr (vocab_displs, total_bytes) \<Rightarrow>
                    let global_vocab_buffer =
                          mpi_gatherv local_vocab_serialized vocab_byte_counts vocab_displs
                            (replicate total_bytes (CHR 0x00));
                        broadcast_vocab_root =
                          join_words_with_newline
                            (union_chunks world_size vocab_displs vocab_byte_counts
                               global_vocab_buffer)
                    in case to_int (length broadcast_vocab_root) of
                         Inl f \<Rightarrow> Inl f
                       | Inr root_vocab_bytes \<Rightarrow>
                           let vocab_bytes =
                                 map hd (mpi_bcast 1
                                   (map (\<lambda>r. [if r = 0 then root_vocab_bytes else 0])
                                      [0..<world_size]));
                               broadcast_vocab =
                                 mpi_bcast (hd vocab_bytes)
                                   (map (\<lambda>r. if r = 0 then broadcast_vocab_root
                                              else replicate (vocab_bytes ! r) (CHR 0x00))
                                      [0..<world_size])
                           in Inr (map split_by_newline broadcast_vocab))"

text \<open>\<^verbatim>\<open>vocab_index.emplace(global_vocabulary[i], i)\<close> for every position.\<close>

definition make_vocab_index :: "string list \<Rightarrow> (string \<rightharpoonup> nat)" where
  "make_vocab_index global_vocabulary =
     fold (\<lambda>i m. if m (global_vocabulary ! i) = None then m(global_vocabulary ! i \<mapsto> i) else m)
       [0..<length global_vocabulary] Map.empty"

definition dense_row :: "(string \<rightharpoonup> nat) \<Rightarrow> nat \<Rightarrow> term_count \<Rightarrow> int list" where
  "dense_row vocab_index vocab_size document_map =
     fold (\<lambda>entry row. case vocab_index (fst entry) of
                          Some j \<Rightarrow> row[j := snd entry]
                        | None \<Rightarrow> row)
       document_map (replicate vocab_size 0)"

definition flatten_rows :: "string list \<Rightarrow> term_count list \<Rightarrow> int list" where
  "flatten_rows global_vocabulary local_counts =
     (let vocab_size = length global_vocabulary;
          vocab_index = make_vocab_index global_vocabulary
      in fold (\<lambda>document_map local_rows_flat.
                 local_rows_flat @ dense_row vocab_index vocab_size document_map)
           local_counts [])"

text \<open>Lines 288 to 303 at rank 0: cut the gathered values into rows and pair each with
  its document index.\<close>

definition pair_rows :: "nat \<Rightarrow> nat \<Rightarrow> nat list \<Rightarrow> int list \<Rightarrow> (nat \<times> int list) list" where
  "pair_rows total_rows vocab_size gathered_doc_indices gathered_values =
     fst (fold (\<lambda>i (ordered_rows, offset).
                  (ordered_rows @
                     [(gathered_doc_indices ! i,
                       if vocab_size > 0 then take vocab_size (drop offset gathered_values)
                       else replicate vocab_size 0)],
                   offset + vocab_size))
            [0..<total_rows] ([], 0))"

record parallel_outcome =
  par_collectives :: "mpi_call list"
  par_vocabulary :: "string list list"
  par_stderr :: "diagnostic list list"
  par_written :: "csv option"

text \<open>Lines 158 to 338, given what every rank holds after its local loop. Equal keys
  do not occur among the gathered document indices, so \<^verbatim>\<open>std::sort\<close> on the index
  is \<open>sort_key fst\<close>. The \<^verbatim>\<open>int\<close>s are those of lines 221 (\<open>vocab_sizes\<close>), 228
  (\<open>local_row_counts\<close>), 253 to 257, 266 (\<open>local_value_counts\<close>), 273 to 278 and 288.\<close>

definition collective_phases ::
  "string list \<Rightarrow> local_state list \<Rightarrow> failure + parallel_outcome" where
  "collective_phases document_paths locals =
     (let world_size = length locals;
          all_local_counts = map fst locals;
          all_local_doc_indices = map (fst \<circ> snd) locals
      in case synchronize_vocabulary all_local_counts of
           Inl f \<Rightarrow> Inl f
         | Inr global_vocabulary \<Rightarrow>
      case each_int (map length global_vocabulary) of
           Inl f \<Rightarrow> Inl f
         | Inr vocab_sizes \<Rightarrow>
      case each_int (map length all_local_counts) of
           Inl f \<Rightarrow> Inl f
         | Inr local_row_counts \<Rightarrow>
      let vocab_size = hd vocab_sizes;
          row_counts = mpi_gather local_row_counts (replicate world_size 0);
          local_rows_flat =
            map (\<lambda>r. flatten_rows (global_vocabulary ! r) (all_local_counts ! r)) [0..<world_size]
      in case layout row_counts 0 of
           Inl f \<Rightarrow> Inl f
         | Inr (doc_index_displs, running) \<Rightarrow>
      let gathered_doc_indices =
            mpi_gatherv all_local_doc_indices row_counts doc_index_displs (replicate running 0)
      in case each_int (map (\<lambda>r. vocab_sizes ! r * local_row_counts ! r) [0..<world_size]) of
           Inl f \<Rightarrow> Inl f
         | Inr local_value_counts \<Rightarrow>
      case each_int (map (\<lambda>c. c * vocab_size) row_counts) of
           Inl f \<Rightarrow> Inl f
         | Inr value_counts \<Rightarrow>
      case layout value_counts 0 of
           Inl f \<Rightarrow> Inl f
         | Inr (value_displs, running_values) \<Rightarrow>
      let gathered_values =
            mpi_gatherv local_rows_flat value_counts value_displs (replicate running_values 0)
      in case int_sum row_counts of
           Inl f \<Rightarrow> Inl f
         | Inr total_rows \<Rightarrow>
      let ordered_rows =
            sort_key fst (pair_rows total_rows vocab_size gathered_doc_indices gathered_values);
          doc_names = map (\<lambda>row. filename (document_paths ! fst row)) ordered_rows;
          matrix = map snd ordered_rows;
          read_errors = map (snd \<circ> snd) locals
      in Inr \<lparr>par_collectives =
            [MPI_Gather, MPI_Gatherv, MPI_Bcast, MPI_Bcast, MPI_Gather, MPI_Gatherv, MPI_Gatherv,
             MPI_Barrier, MPI_Reduce],
          par_vocabulary = global_vocabulary,
          par_stderr =
            (if doc_names \<noteq> [] then read_errors
             else read_errors[0 := hd read_errors @ [No_Rows_Generated]]),
          par_written =
            (if doc_names \<noteq> []
             then Some \<lparr>csv_vocabulary = hd global_vocabulary, csv_doc_names = doc_names,
                    csv_matrix = matrix\<rparr>
             else None)\<rparr>)"

text \<open>The whole of \<^verbatim>\<open>run_parallel\<close> on the \<open>world_size\<close> ranks of the communicator
  (\<^verbatim>\<open>MPI_Comm_size\<close> never answers 0): the early return of line 131, each rank's loop,
  then the collective phases. The result is \<open>None\<close> when some rank's loop does not
  end, and \<open>Some (Inl Int_Out_Of_Range)\<close> when an \<^verbatim>\<open>int\<close> of some rank leaves its
  range.\<close>

definition run_parallel ::
  "nat \<Rightarrow> filesystem \<Rightarrow> string list \<Rightarrow> (failure + parallel_outcome) option" where
  "run_parallel world_size fs document_paths =
     (if document_paths = []
      then Some (Inr \<lparr>par_collectives = [], par_vocabulary = [], par_stderr = [],
                      par_written = None\<rparr>)
      else
        case those (map (local_documents fs document_paths world_size) [0..<world_size]) of
          None \<Rightarrow> None
        | Some rank_results \<Rightarrow>
            (case all_ranks rank_results of
               Inl f \<Rightarrow> Some (Inl f)
             | Inr locals \<Rightarrow> Some (collective_phases document_paths locals)))"

subsection \<open>Notions of the specification\<close>

text \<open>A byte is term-forming iff it is alphanumeric or underscore.\<close>

definition term_forming :: "char \<Rightarrow> bool" where
  "term_forming c = (isalnum c \<or> c = CHR ''_'')"

text \<open>The maximal runs of elements that satisfy \<open>P\<close>, in order: each run starts at an
  element that satisfies \<open>P\<close> and takes every following one up to the next that does not.\<close>

function maximal_runs :: "('a \<Rightarrow> bool) \<Rightarrow> 'a list \<Rightarrow> 'a list list" where
  "maximal_runs P [] = []"
| "maximal_runs P (x # xs) =
     (if P x then takeWhile P (x # xs) # maximal_runs P (dropWhile P xs)
      else maximal_runs P xs)"
  by pat_completeness auto
termination
  by (relation "measure (\<lambda>(P, xs). length xs)")
     (auto simp: less_Suc_eq_le length_dropWhile_le)

text \<open>A lowercase letter or a digit.\<close>

definition lower_alnum :: "char \<Rightarrow> bool" where
  "lower_alnum c =
     (let n = (of_char c :: nat) in (48 \<le> n \<and> n \<le> 57) \<or> (97 \<le> n \<and> n \<le> 122))"

text \<open>The bytes a run reads from \<open>fs\<close> for a path, and whether the run keeps the
  document: both loops skip a document whose bytes are empty.\<close>

definition bytes_of :: "filesystem \<Rightarrow> string \<Rightarrow> string" where
  "bytes_of fs path = fst (read_file fs path)"

definition kept :: "filesystem \<Rightarrow> string \<Rightarrow> bool" where
  "kept fs path = (bytes_of fs path \<noteq> [])"

text \<open>Round-robin assignment: of \<open>D\<close> documents and \<open>W\<close> workers, rank \<open>r\<close> has the
  indices congruent to \<open>r\<close> modulo \<open>W\<close>, in ascending order.\<close>

definition assigned :: "nat \<Rightarrow> nat \<Rightarrow> nat \<Rightarrow> nat list" where
  "assigned D W r = [i \<leftarrow> [0..<D]. i mod W = r]"

text \<open>The counts of the document at a path, as both loops compute them.\<close>

definition doc_counts :: "filesystem \<Rightarrow> string \<Rightarrow> term_count" where
  "doc_counts fs path = count_tokens (tokenize_document (bytes_of fs path))"

text \<open>The documents kept, by index; the count tables rank \<open>r\<close> of \<open>W\<close> holds after its
  loop.\<close>

definition kept_indices :: "filesystem \<Rightarrow> string list \<Rightarrow> nat list" where
  "kept_indices fs paths = [i \<leftarrow> [0..<length paths]. kept fs (paths ! i)]"

definition rank_counts :: "filesystem \<Rightarrow> string list \<Rightarrow> nat \<Rightarrow> nat \<Rightarrow> term_count list" where
  "rank_counts fs paths W r =
     map (\<lambda>i. doc_counts fs (paths ! i)) [i \<leftarrow> assigned (length paths) W r. kept fs (paths ! i)]"

text \<open>The sizes the MPI variant holds in \<^verbatim>\<open>int\<close>s: the bytes of the serialized local
  vocabularies that the root gathers, and the cells of the matrix (rows times columns).
  \<open>int_sized\<close>: the indices of the documents kept, those bytes, the number of rows and
  the number of cells are all at most \<^verbatim>\<open>INT_MAX\<close>.\<close>

definition gathered_vocabulary_bytes :: "filesystem \<Rightarrow> string list \<Rightarrow> nat \<Rightarrow> nat" where
  "gathered_vocabulary_bytes fs paths W =
     sum_list (map (\<lambda>r. length (join_words_with_newline (local_vocab (rank_counts fs paths W r))))
       [0..<W])"

definition matrix_cells :: "filesystem \<Rightarrow> string list \<Rightarrow> nat" where
  "matrix_cells fs paths =
     length (kept_indices fs paths) *
     length (build_vocabulary (map (doc_counts fs) (filter (kept fs) paths)))"

definition int_sized :: "filesystem \<Rightarrow> string list \<Rightarrow> nat \<Rightarrow> bool" where
  "int_sized fs paths W =
     (list_all (\<lambda>i. i \<le> int_max) (kept_indices fs paths)
      \<and> gathered_vocabulary_bytes fs paths W \<le> int_max
      \<and> length (kept_indices fs paths) \<le> int_max
      \<and> matrix_cells fs paths \<le> int_max)"

text \<open>The displacements of a layout: the sums of the counts before each position.\<close>

definition offsets :: "nat list \<Rightarrow> nat list" where
  "offsets cs = map (\<lambda>i. sum_list (take i cs)) [0..<length cs]"


text \<open>Reading the output file back: a row ends at each newline, the cells of a row are
  separated by commas; the header is \<^verbatim>\<open>document\<close> and the terms, a data row is the name
  of a document and its values in decimal.\<close>

fun split_at :: "char \<Rightarrow> string \<Rightarrow> string list" where
  "split_at sep [] = [[]]"
| "split_at sep (c # cs) =
     (if c = sep then [] # split_at sep cs
      else (c # hd (split_at sep cs)) # tl (split_at sep cs))"

definition csv_lines :: "string \<Rightarrow> string list" where
  "csv_lines file_bytes = butlast (split_at newline file_bytes)"

definition read_nat :: "string \<Rightarrow> nat" where
  "read_nat s = foldl (\<lambda>a c. 10 * a + (of_char c - 48)) 0 s"

definition read_int :: "string \<Rightarrow> int" where
  "read_int s =
     (case s of
        [] \<Rightarrow> 0
      | c # cs \<Rightarrow> if c = CHR ''-'' then - int (read_nat cs) else int (read_nat s))"

definition read_csv :: "string \<Rightarrow> csv" where
  "read_csv file_bytes =
     (let rows = map (split_at (CHR '','')) (csv_lines file_bytes)
      in \<lparr>csv_vocabulary = tl (hd rows),
          csv_doc_names = map hd (tl rows),
          csv_matrix = map (\<lambda>row. map read_int (tl row)) (tl rows)\<rparr>)"

section \<open>Evaluating the range checks\<close>

text \<open>The bound is compared in binary.\<close>

lemma fits_int: "(n \<le> int_max) = (int n \<le> 2147483647)"
  by (simp add: int_max_def)

lemma to_int_code [code]:
  "to_int n = (if int n \<le> 2147483647 then Inr n else Inl Int_Out_Of_Range)"
  by (simp add: to_int_def fits_int)

lemma each_int_code [code]:
  "each_int ns =
     (if list_all (\<lambda>n. int n \<le> 2147483647) ns then Inr ns else Inl Int_Out_Of_Range)"
  by (simp add: each_int_def fits_int)

lemma int_sized_code [code]:
  "int_sized fs paths W =
     (list_all (\<lambda>i. int i \<le> 2147483647) (kept_indices fs paths)
      \<and> int (gathered_vocabulary_bytes fs paths W) \<le> 2147483647
      \<and> int (length (kept_indices fs paths)) \<le> 2147483647
      \<and> int (matrix_cells fs paths) \<le> 2147483647)"
  by (simp add: int_sized_def fits_int)

section \<open>The tokenizer\<close>

lemma of_char_tolower:
  "(of_char (tolower c) :: nat) =
     (if 65 \<le> (of_char c :: nat) \<and> (of_char c :: nat) \<le> 90 then of_char c + 32 else of_char c)"
  by (simp add: tolower_def Let_def)

lemma underscore_code: "(c = CHR ''_'') = ((of_char c :: nat) = 95)"
proof -
  have "(of_char (CHR ''_'') :: nat) = 95" by simp
  then show ?thesis by (metis of_char_eq_iff)
qed

lemma term_forming_tolower:
  "(isalnum (tolower c) \<or> tolower c = CHR ''_'') = term_forming c"
  unfolding term_forming_def isalnum_def Let_def underscore_code of_char_tolower
  by auto

lemma tolower_term_forming:
  assumes "term_forming c"
  shows "lower_alnum (tolower c) \<or> tolower c = CHR ''_''"
proof (cases "65 \<le> (of_char c :: nat) \<and> (of_char c :: nat) \<le> 90")
  case True
  then show ?thesis
    unfolding lower_alnum_def Let_def of_char_tolower by simp
next
  case False
  with assms show ?thesis
    unfolding term_forming_def isalnum_def lower_alnum_def Let_def underscore_code of_char_tolower
    by simp
qed

lemma maximal_runs_unfold:
  "maximal_runs P xs =
     (if takeWhile P xs \<noteq> [] then [takeWhile P xs] else []) @ maximal_runs P (dropWhile P xs)"
  by (cases xs) auto

lemma maximal_runs_member:
  "r \<in> set (maximal_runs P xs) \<Longrightarrow> r \<noteq> [] \<and> (\<forall>x\<in>set r. P x)"
proof (induction P xs rule: maximal_runs.induct)
  case (1 P)
  then show ?case by simp
next
  case (2 P x xs)
  show ?case
  proof (cases "P x")
    case True
    with 2 have "r = x # takeWhile P xs \<or> r \<in> set (maximal_runs P (dropWhile P xs))"
      by simp
    then show ?thesis
    proof
      assume "r = x # takeWhile P xs"
      with True show ?thesis by (auto dest: set_takeWhileD)
    next
      assume "r \<in> set (maximal_runs P (dropWhile P xs))"
      with 2 True show ?thesis by blast
    qed
  next
    case False
    with 2 show ?thesis by simp
  qed
qed

lemma tokenize_loop_runs:
  "(case tokenize_loop xs tokens cur of (ts, c) \<Rightarrow> if c \<noteq> [] then ts @ [c] else ts) =
     tokens @
       (let w = cur @ map tolower (takeWhile term_forming xs)
        in (if w \<noteq> [] then [w] else []) @
           map (map tolower) (maximal_runs term_forming (dropWhile term_forming xs)))"
proof (induction xs arbitrary: tokens cur)
  case Nil
  then show ?case by simp
next
  case (Cons x xs)
  show ?case
  proof (cases "term_forming x")
    case True
    then show ?thesis
      using Cons.IH [of tokens "cur @ [tolower x]"]
      by (simp add: term_forming_tolower Let_def)
  next
    case False
    have unf: "map (map tolower) (maximal_runs term_forming xs) =
      (let w = map tolower (takeWhile term_forming xs)
       in (if w \<noteq> [] then [w] else []) @
          map (map tolower) (maximal_runs term_forming (dropWhile term_forming xs)))"
      by (subst maximal_runs_unfold) (simp add: Let_def)
    show ?thesis
    proof (cases "cur = []")
      case True
      with False show ?thesis
        using Cons.IH [of tokens "[]"] unf
        by (simp add: term_forming_tolower Let_def)
    next
      case nonempty: False
      with False show ?thesis
        using Cons.IH [of "tokens @ [cur]" "[]"] unf
        by (simp add: term_forming_tolower Let_def)
    qed
  qed
qed

lemma tokenize_document_runs:
  "tokenize_document content = map (map tolower) (maximal_runs term_forming content)"
proof -
  have "tokenize_document content =
    (case tokenize_loop content [] [] of (ts, c) \<Rightarrow> if c \<noteq> [] then ts @ [c] else ts)"
    by (simp add: tokenize_document_def)
  also have "\<dots> = map (map tolower) (maximal_runs term_forming content)"
    by (subst tokenize_loop_runs, subst (2) maximal_runs_unfold) (simp add: Let_def)
  finally show ?thesis .
qed

lemma token_shape:
  assumes "t \<in> set (tokenize_document content)"
  shows "t \<noteq> []" and "\<forall>c\<in>set t. lower_alnum c \<or> c = CHR ''_''"
proof -
  from assms obtain r where r: "r \<in> set (maximal_runs term_forming content)" and t: "t = map tolower r"
    by (auto simp: tokenize_document_runs)
  from maximal_runs_member [OF r] have "r \<noteq> []" and tf: "\<forall>x\<in>set r. term_forming x" by auto
  then show "t \<noteq> []" by (simp add: t)
  show "\<forall>c\<in>set t. lower_alnum c \<or> c = CHR ''_''"
    using tf tolower_term_forming by (auto simp: t)
qed

lemma newline_code: "(of_char newline :: nat) = 10"
  by (simp add: newline_def)

lemma token_no_newline:
  assumes "t \<in> set (tokenize_document content)"
  shows "newline \<notin> set t"
proof
  assume "newline \<in> set t"
  with token_shape(2) [OF assms] have "lower_alnum newline \<or> newline = CHR ''_''" by blast
  then show False
    by (simp add: lower_alnum_def underscore_code newline_code)
qed

lemma join_words_concat:
  "join_words_with_newline ws = concat (map (\<lambda>w. w @ [newline]) ws)"
proof -
  have "fold (\<lambda>word serialized. serialized @ word @ [newline]) ws acc =
      acc @ concat (map (\<lambda>w. w @ [newline]) ws)" for acc
    by (induction ws arbitrary: acc) simp_all
  then show ?thesis by (simp add: join_words_with_newline_def)
qed

lemma split_loop_word:
  "newline \<notin> set w \<Longrightarrow> split_loop (w @ rest) parts cur = split_loop rest parts (cur @ w)"
  by (induction w arbitrary: cur) auto

lemma split_loop_join:
  assumes "\<forall>w\<in>set ws. w \<noteq> [] \<and> newline \<notin> set w"
  shows "split_loop (concat (map (\<lambda>w. w @ [newline]) ws)) parts [] = (parts @ ws, [])"
  using assms
proof (induction ws arbitrary: parts)
  case Nil
  then show ?case by simp
next
  case (Cons w ws)
  then have w: "w \<noteq> []" "newline \<notin> set w" by auto
  have "split_loop ((w @ [newline]) @ concat (map (\<lambda>w. w @ [newline]) ws)) parts [] =
      split_loop (concat (map (\<lambda>w. w @ [newline]) ws)) (parts @ [w]) []"
    using w by (simp add: split_loop_word)
  with Cons show ?case by simp
qed

lemma split_join:
  assumes "\<forall>w\<in>set ws. w \<noteq> [] \<and> newline \<notin> set w"
  shows "split_by_newline (join_words_with_newline ws) = ws"
  by (simp add: split_by_newline_def join_words_concat split_loop_join [OF assms])

section \<open>Claims about the tokenizer and the serialization\<close>

text \<open>
  Claim C3. For every byte sequence, the tokenizer returns exactly the maximal runs of
  term-forming bytes, in order, each run lowercased; it never emits an empty token; it
  is a total function, and on the empty input it returns no token.
\<close>

theorem tokenizer_maximal_runs:
  "tokenize_document content = map (map tolower) (maximal_runs term_forming content)
   \<and> [] \<notin> set (tokenize_document content)
   \<and> tokenize_document [] = []"
proof -
  have "[] \<notin> set (tokenize_document content)"
    using token_shape(1) by blast
  then show ?thesis
    by (simp add: tokenize_document_runs)
qed

theorem tokenizer_maximal_runs_witness:
  "tokenize_document ''The cat_9 SAT, on'' = [''the'', ''cat_9'', ''sat'', ''on'']
   \<and> map (map tolower) (maximal_runs term_forming ''The cat_9 SAT, on'') =
       [''the'', ''cat_9'', ''sat'', ''on'']"
proof -
  have "tokenize_document ''The cat_9 SAT, on'' = [''the'', ''cat_9'', ''sat'', ''on'']"
    by code_simp
  with tokenizer_maximal_runs [of "''The cat_9 SAT, on''"] show ?thesis
    by simp
qed

text \<open>
  Claim C10. A \<^verbatim>\<open>std::set\<close> holding the finite set \<open>S\<close> is iterated in ascending
  order, that is as \<open>sorted_list_of_set S\<close>. When no element of \<open>S\<close> is empty or holds
  a newline, splitting the joined serialization returns exactly the elements of \<open>S\<close>,
  strictly ascending, hence without duplicates.
\<close>

theorem split_join_roundtrip:
  assumes "finite S" and "\<forall>w\<in>S. w \<noteq> [] \<and> newline \<notin> set w"
  shows "split_by_newline (join_words_with_newline (sorted_list_of_set S)) = sorted_list_of_set S
         \<and> set (split_by_newline (join_words_with_newline (sorted_list_of_set S))) = S
         \<and> sorted_wrt (<) (split_by_newline (join_words_with_newline (sorted_list_of_set S)))"
proof -
  from assms have "\<forall>w\<in>set (sorted_list_of_set S). w \<noteq> [] \<and> newline \<notin> set w"
    by simp
  from split_join [OF this] assms(1) show ?thesis
    by (simp add: strict_sorted_iff)
qed

theorem split_join_roundtrip_witness:
  "split_by_newline (join_words_with_newline (sorted_list_of_set {''the'', ''cat'', ''sat''}))
     = [''cat'', ''sat'', ''the'']
   \<and> join_words_with_newline (sorted_list_of_set {''the'', ''cat'', ''sat''})
     = ''cat'' @ [newline] @ ''sat'' @ [newline] @ ''the'' @ [newline]"
proof -
  have s: "sorted_list_of_set {''the'', ''cat'', ''sat''} = [''cat'', ''sat'', ''the'']"
    by code_simp
  have f: "finite {''the'', ''cat'', ''sat''}" by simp
  have n: "\<forall>w\<in>{''the'', ''cat'', ''sat''}. w \<noteq> [] \<and> newline \<notin> set w"
    by (simp add: newline_def)
  from split_join_roundtrip [OF f n] show ?thesis
    unfolding s by (simp add: join_words_concat)
qed

section \<open>The partition loop\<close>

lemma stride_step:
  assumes "0 < W" and "idx < D"
  shows "[i \<leftarrow> [idx..<D]. (i - idx) mod W = 0] =
         idx # [i \<leftarrow> [idx + W..<D]. (i - (idx + W)) mod W = 0]"
proof (rule sorted_distinct_set_unique)
  have mem: "(idx \<le> i \<and> (i - idx) mod W = 0) =
             (i = idx \<or> (idx + W \<le> i \<and> (i - (idx + W)) mod W = 0))" for i
  proof (cases "i = idx")
    case True
    then show ?thesis by simp
  next
    case False
    show ?thesis
    proof
      assume a: "idx \<le> i \<and> (i - idx) mod W = 0"
      with False have pos: "0 < i - idx" by simp
      have w: "W \<le> i - idx"
      proof (rule ccontr)
        assume "\<not> W \<le> i - idx"
        then have "(i - idx) mod W = i - idx" by simp
        with a pos show False by simp
      qed
      then have "(i - idx) mod W = (i - idx - W) mod W"
        by (rule le_mod_geq)
      moreover have "i - idx - W = i - (idx + W)" by simp
      moreover from w a have "idx + W \<le> i" by arith
      ultimately show "i = idx \<or> (idx + W \<le> i \<and> (i - (idx + W)) mod W = 0)"
        using a by simp
    next
      assume "i = idx \<or> (idx + W \<le> i \<and> (i - (idx + W)) mod W = 0)"
      with False have b: "idx + W \<le> i" and c: "(i - (idx + W)) mod W = 0" by simp_all
      from b have "W \<le> i - idx" by arith
      then have "(i - idx) mod W = (i - idx - W) mod W" by (rule le_mod_geq)
      moreover have "i - idx - W = i - (idx + W)" by simp
      moreover from b have "idx \<le> i" by arith
      ultimately show "idx \<le> i \<and> (i - idx) mod W = 0"
        using c by simp
    qed
  qed
  show "set [i \<leftarrow> [idx..<D]. (i - idx) mod W = 0] =
        set (idx # [i \<leftarrow> [idx + W..<D]. (i - (idx + W)) mod W = 0])"
    (is "?L = ?R")
  proof (rule set_eqI)
    fix i
    have L: "i \<in> ?L \<longleftrightarrow> i < D \<and> (idx \<le> i \<and> (i - idx) mod W = 0)"
      by (simp add: conj_commute)
    have R: "i \<in> ?R \<longleftrightarrow> i = idx \<or> (i < D \<and> (idx + W \<le> i \<and> (i - (idx + W)) mod W = 0))"
      by (simp add: conj_commute)
    from assms(2) show "i \<in> ?L \<longleftrightarrow> i \<in> ?R"
      unfolding L R mem [of i] by blast
  qed
  show "sorted (idx # [i \<leftarrow> [idx + W..<D]. (i - (idx + W)) mod W = 0])"
    by (auto simp: sorted_wrt_filter)
  show "distinct (idx # [i \<leftarrow> [idx + W..<D]. (i - (idx + W)) mod W = 0])"
    using assms by auto
qed (simp_all add: sorted_wrt_filter)

lemma strided_for_fold:
  assumes "0 < W"
  shows "strided_for idx D W body s =
         Some (fold body [i \<leftarrow> [idx..<D]. (i - idx) mod W = 0] s)"
proof (induction "D - idx" arbitrary: idx s rule: less_induct)
  case less
  show ?case
  proof (cases "idx < D")
    case True
    with assms have "D - (idx + W) < D - idx" by simp
    from less [OF this] True show ?thesis
      by (subst strided_for.simps) (simp add: stride_step [OF assms True])
  next
    case False
    then show ?thesis
      by (subst strided_for.simps) simp
  qed
qed

lemma mod_rank:
  assumes "r < W"
  shows "(r \<le> i \<and> (i - r) mod W = 0) = (i mod W = (r::nat))"
proof
  assume a: "r \<le> i \<and> (i - r) mod W = 0"
  then have "i = (i - r) + r" by simp
  then have "i mod W = ((i - r) mod W + r mod W) mod W"
    by (metis mod_add_eq)
  with a assms show "i mod W = r" by simp
next
  assume b: "i mod W = r"
  then have "r \<le> i" by (metis mod_less_eq_dividend)
  moreover have "i - r = W * (i div W)"
    using b by (metis minus_mod_eq_mult_div)
  ultimately show "r \<le> i \<and> (i - r) mod W = 0" by simp
qed

lemma stride_assigned:
  assumes "r < W"
  shows "[i \<leftarrow> [r..<D]. (i - r) mod W = 0] = assigned D W r"
proof (rule sorted_distinct_set_unique)
  show "set [i \<leftarrow> [r..<D]. (i - r) mod W = 0] = set (assigned D W r)"
    (is "?L = ?R")
  proof (rule set_eqI)
    fix i
    have L: "i \<in> ?L \<longleftrightarrow> i < D \<and> (r \<le> i \<and> (i - r) mod W = 0)"
      by (simp add: conj_commute)
    have R: "i \<in> ?R \<longleftrightarrow> i < D \<and> i mod W = r"
      by (simp add: assigned_def)
    show "i \<in> ?L \<longleftrightarrow> i \<in> ?R"
      unfolding L R mod_rank [OF assms, of i] ..
  qed
qed (simp_all add: assigned_def sorted_wrt_filter)

lemma strided_for_assigned:
  assumes "r < W"
  shows "strided_for r D W body s = Some (fold body (assigned D W r) s)"
proof -
  from assms have "0 < W" by simp
  then show ?thesis
    unfolding stride_assigned [OF assms, symmetric] by (rule strided_for_fold)
qed

lemma set_assigned: "set (assigned D W r) = {i. i < D \<and> i mod W = r}"
  by (auto simp: assigned_def)

lemma assigned_spec:
  assumes "r < W"
  shows "assigned D W r = sorted_list_of_set ({r + k * W |k. True} \<inter> {0..<D})"
proof -
  have "(i mod W = r) = (\<exists>k. i = r + k * W)" for i
  proof
    assume "i mod W = r"
    then have "i = r + (i div W) * W"
      by (metis add.commute div_mult_mod_eq)
    then show "\<exists>k. i = r + k * W" ..
  next
    assume "\<exists>k. i = r + k * W"
    with assms show "i mod W = r" by auto
  qed
  then have "set (assigned D W r) = {r + k * W |k. True} \<inter> {0..<D}"
    by (auto simp: set_assigned)
  moreover have "sorted (assigned D W r)" and "distinct (assigned D W r)"
    by (simp_all add: assigned_def sorted_wrt_filter)
  ultimately show ?thesis
    by (metis sorted_list_of_set.idem_if_sorted_distinct)
qed

text \<open>
  Claim C4. For a rank \<open>r < W\<close>, the loop
  \<^verbatim>\<open>for (idx = r; idx < D; idx += W)\<close> ends, and runs its body on exactly the indices
  \<open>{r, r + W, r + 2W, ...} \<inter> [0, D)\<close> in ascending order, whatever the body does; every
  index below \<open>D\<close> is visited by exactly one rank; the indices are a function of
  \<open>D\<close>, \<open>W\<close> and \<open>r\<close> alone.
\<close>

theorem partition_round_robin:
  assumes "r < W"
  shows "strided_for r D W body s =
           Some (fold body (sorted_list_of_set ({r + k * W |k. True} \<inter> {0..<D})) s)
         \<and> local_documents fs document_paths W r =
           Some (fold (local_body fs document_paths)
             (sorted_list_of_set ({r + k * W |k. True} \<inter> {0..<length document_paths}))
             (Inr ([], [], [])))
         \<and> sorted_list_of_set ({r + k * W |k. True} \<inter> {0..<D}) = [i \<leftarrow> [0..<D]. i mod W = r]
         \<and> (\<forall>i<D. \<exists>!q. q < W \<and> i \<in> set (assigned D W q))"
proof -
  have "\<exists>!q. q < W \<and> i \<in> set (assigned D W q)" if "i < D" for i
  proof
    from assms that show "i mod W < W \<and> i \<in> set (assigned D W (i mod W))"
      by (simp add: set_assigned)
  next
    fix q
    assume "q < W \<and> i \<in> set (assigned D W q)"
    then show "q = i mod W" by (simp add: set_assigned)
  qed
  then have unique: "\<forall>i<D. \<exists>!q. q < W \<and> i \<in> set (assigned D W q)"
    by blast
  have loop: "strided_for r D W body s =
      Some (fold body (sorted_list_of_set ({r + k * W |k. True} \<inter> {0..<D})) s)"
    using strided_for_assigned [OF assms, of D body s] assigned_spec [OF assms, of D]
    by simp
  have local: "local_documents fs document_paths W r =
      Some (fold (local_body fs document_paths)
        (sorted_list_of_set ({r + k * W |k. True} \<inter> {0..<length document_paths}))
        (Inr ([], [], [])))"
    unfolding local_documents_def
    using strided_for_assigned [OF assms, of "length document_paths"]
      assigned_spec [OF assms, of "length document_paths"]
    by simp
  have closed: "sorted_list_of_set ({r + k * W |k. True} \<inter> {0..<D}) =
      [i \<leftarrow> [0..<D]. i mod W = r]"
    using assigned_spec [OF assms, of D] by (simp add: assigned_def)
  from loop local closed unique show ?thesis by blast
qed

theorem partition_round_robin_witness:
  "strided_for 1 10 3 (\<lambda>idx visited. visited @ [idx]) [] = Some [1, 4, 7]
   \<and> sorted_list_of_set ({1 + k * 3 |k. True} \<inter> {0..<10}) = [1, 4, 7::nat]"
proof -
  have e: "[i \<leftarrow> [0..<10]. i mod 3 = (1::nat)] = [1, 4, 7]"
    by code_simp
  have "(1::nat) < 3" by simp
  from partition_round_robin [OF this, of 10 "\<lambda>idx visited. visited @ [idx]" "[]"]
  have "strided_for 1 10 3 (\<lambda>idx visited. visited @ [idx]) [] =
      Some (fold (\<lambda>idx visited. visited @ [idx])
        (sorted_list_of_set ({1 + k * 3 |k. True} \<inter> {0..<10})) [])"
    and "sorted_list_of_set ({1 + k * 3 |k. True} \<inter> {0..<10}) =
      [i \<leftarrow> [0..<10]. i mod 3 = (1::nat)]"
    by blast+
  then show ?thesis
    unfolding e by simp
qed

section \<open>Ordered containers\<close>

lemma fold_insort_insert:
  "set (fold insort_insert xs acc) = set xs \<union> set acc
   \<and> (sorted acc \<longrightarrow> sorted (fold insort_insert xs acc))
   \<and> (distinct acc \<longrightarrow> distinct (fold insort_insert xs acc))"
proof (induction xs arbitrary: acc)
  case Nil
  then show ?case by simp
next
  case (Cons x xs)
  from Cons [of "insort_insert x acc"] show ?case
    by (simp add: set_insort_insert sorted_insort_insert distinct_insort_insert)
qed

lemma fold_insort_insert_keys:
  "fold (\<lambda>entry. insort_insert (fst entry)) m acc = fold insort_insert (map fst m) acc"
  by (simp add: fold_map comp_def)

lemma local_vocab_fold:
  "set (fold (\<lambda>doc_map acc. fold (\<lambda>entry. insort_insert (fst entry)) doc_map acc) docs acc) =
     (\<Union>m\<in>set docs. fst ` set m) \<union> set acc
   \<and> (sorted acc \<longrightarrow>
        sorted (fold (\<lambda>doc_map acc. fold (\<lambda>entry. insort_insert (fst entry)) doc_map acc) docs acc))
   \<and> (distinct acc \<longrightarrow>
        distinct (fold (\<lambda>doc_map acc. fold (\<lambda>entry. insort_insert (fst entry)) doc_map acc) docs acc))"
proof (induction docs arbitrary: acc)
  case Nil
  then show ?case by simp
next
  case (Cons m docs)
  let ?acc = "fold insort_insert (map fst m) acc"
  from fold_insort_insert [of "map fst m" acc]
  have s: "set ?acc = fst ` set m \<union> set acc"
    and o: "sorted acc \<longrightarrow> sorted ?acc" and d: "distinct acc \<longrightarrow> distinct ?acc"
    by simp_all
  from Cons [of ?acc] s o d show ?case
    by (simp add: fold_insort_insert_keys Un_ac)
qed

lemma set_local_vocab: "set (local_vocab docs) = (\<Union>m\<in>set docs. fst ` set m)"
  using local_vocab_fold [of docs "[]"] by (simp add: local_vocab_def)

lemma sorted_local_vocab: "sorted (local_vocab docs)"
  using local_vocab_fold [of docs "[]"] by (simp add: local_vocab_def)

lemma distinct_local_vocab: "distinct (local_vocab docs)"
  using local_vocab_fold [of docs "[]"] by (simp add: local_vocab_def)

lemma map_fst_insort_key:
  "map fst (insort_key fst e m) = insort (fst e) (map fst m)"
  by (induction m) simp_all

lemma map_fst_emplace:
  "map fst (map_emplace k v m) = insort_insert k (map fst m)"
  by (simp add: map_emplace_def insort_insert_key_def map_fst_insort_key image_iff
      Bex_def)

lemma emplace_fold_keys:
  "map fst (fold (\<lambda>entry. map_emplace (fst entry) 0) m acc) =
   fold (\<lambda>entry. insort_insert (fst entry)) m (map fst acc)"
  by (induction m arbitrary: acc) (simp_all add: map_fst_emplace)

lemma build_vocabulary_local_vocab: "build_vocabulary docs = local_vocab docs"
proof -
  have "map fst (fold (\<lambda>document_map acc. fold (\<lambda>entry. map_emplace (fst entry) 0) document_map acc)
          docs acc) =
        fold (\<lambda>doc_map acc. fold (\<lambda>entry. insort_insert (fst entry)) doc_map acc) docs (map fst acc)"
    for acc
    by (induction docs arbitrary: acc) (simp_all add: emplace_fold_keys)
  from this [of "[]"] show ?thesis
    by (simp add: build_vocabulary_def local_vocab_def)
qed

lemma set_build_vocabulary: "set (build_vocabulary docs) = (\<Union>m\<in>set docs. fst ` set m)"
  by (simp add: build_vocabulary_local_vocab set_local_vocab)

lemma sorted_build_vocabulary: "sorted (build_vocabulary docs)"
  by (simp add: build_vocabulary_local_vocab sorted_local_vocab)

lemma distinct_build_vocabulary: "distinct (build_vocabulary docs)"
  by (simp add: build_vocabulary_local_vocab distinct_local_vocab)

section \<open>The local counter\<close>

lemma keys_map_increment: "fst ` set (map_increment k m) = insert k (fst ` set m)"
proof -
  have "set (map fst (map_increment k m)) = insert k (set (map fst m))"
    by (induction m rule: map_increment.induct) auto
  then show ?thesis by simp
qed

lemma sorted_map_increment:
  "sorted_wrt (<) (map fst m) \<Longrightarrow> sorted_wrt (<) (map fst (map_increment k m))"
proof (induction k m rule: map_increment.induct)
  case (1 k)
  then show ?case by simp
next
  case (2 k k' v m)
  from "2.prems" have tl: "sorted_wrt (<) (map fst m)" and hd: "\<forall>x\<in>set m. k' < fst x"
    by simp_all
  show ?case
  proof (cases "k = k'")
    case True
    with tl hd show ?thesis by simp
  next
    case False
    show ?thesis
    proof (cases "k < k'")
      case True
      have "\<forall>x\<in>set m. k < fst x"
        using hd True by (blast intro: less_trans)
      with True False tl hd show ?thesis by simp
    next
      case notless: False
      with False have lt: "k' < k" by simp
      have keys: "fst ` set (map_increment k m) = insert k (fst ` set m)"
        by (rule keys_map_increment)
      have "\<forall>x\<in>set (map_increment k m). k' < fst x"
      proof
        fix x
        assume "x \<in> set (map_increment k m)"
        then have "fst x \<in> insert k (fst ` set m)"
          using keys by blast
        with lt hd show "k' < fst x" by auto
      qed
      moreover from "2.IH" False notless tl
      have "sorted_wrt (<) (map fst (map_increment k m))" by simp
      ultimately show ?thesis
        using False notless by simp
    qed
  qed
qed

lemma count_tokens_fold:
  "fst ` set (fold map_increment tokens m) = set tokens \<union> fst ` set m
   \<and> (sorted_wrt (<) (map fst m) \<longrightarrow> sorted_wrt (<) (map fst (fold map_increment tokens m)))"
proof (induction tokens arbitrary: m)
  case Nil
  then show ?case by simp
next
  case (Cons t tokens)
  from Cons [of "map_increment t m"] show ?case
    by (simp add: keys_map_increment sorted_map_increment)
qed

lemma keys_count_tokens: "fst ` set (count_tokens tokens) = set tokens"
  using count_tokens_fold [of tokens "[]"] by (simp add: count_tokens_def)

lemma distinct_count_tokens: "distinct (map fst (count_tokens tokens))"
proof -
  have "sorted_wrt (<) (map fst (count_tokens tokens))"
    using count_tokens_fold [of tokens "[]"] by (simp add: count_tokens_def)
  then show ?thesis by (simp add: strict_sorted_iff)
qed


section \<open>The baseline\<close>

lemma serial_loop_eq:
  "serial_loop fs paths (dc, pn, err) =
     (dc @ map (doc_counts fs) (filter (kept fs) paths),
      pn @ map filename (filter (kept fs) paths),
      err @ concat (map (\<lambda>p. snd (read_file fs p)) paths))"
proof (induction paths arbitrary: dc pn err)
  case Nil
  then show ?case by simp
next
  case (Cons p paths)
  obtain c e where r: "read_file fs p = (c, e)" by (cases "read_file fs p")
  show ?case
  proof (cases "c = []")
    case True
    with r Cons [of dc pn "err @ e"] show ?thesis
      by (simp add: kept_def bytes_of_def)
  next
    case False
    with r Cons [of "dc @ [count_tokens (tokenize_document c)]" "pn @ [filename p]" "err @ e"]
    show ?thesis
      by (simp add: kept_def bytes_of_def doc_counts_def)
  qed
qed

lemma run_serial_eq:
  "run_serial fs paths =
     (if paths = [] then \<lparr>ser_stderr = [No_Documents], ser_written = None\<rparr>
      else if filter (kept fs) paths = []
      then \<lparr>ser_stderr = concat (map (\<lambda>p. snd (read_file fs p)) paths) @ [No_Valid_Document],
             ser_written = None\<rparr>
      else \<lparr>ser_stderr = concat (map (\<lambda>p. snd (read_file fs p)) paths),
             ser_written = Some
               \<lparr>csv_vocabulary = build_vocabulary (map (doc_counts fs) (filter (kept fs) paths)),
                csv_doc_names = map filename (filter (kept fs) paths),
                csv_matrix = build_matrix (map (doc_counts fs) (filter (kept fs) paths))
                  (build_vocabulary (map (doc_counts fs) (filter (kept fs) paths)))\<rparr>\<rparr>)"
  by (simp add: run_serial_def serial_loop_eq Let_def)

section \<open>Adding a document\<close>

lemma zip_map_self: "zip xs (map f xs) = map (\<lambda>x. (x, f x)) xs"
  by (induction xs) simp_all

lemma old_columns:
  "map snd (filter (\<lambda>(t, v). t \<in> S) (zip V' (map f V'))) = map f (filter (\<lambda>t. t \<in> S) V')"
  by (induction V') simp_all

lemma filter_sub_vocabulary:
  assumes "sorted V" "distinct V" "sorted V'" "distinct V'" "set V \<subseteq> set V'"
  shows "filter (\<lambda>t. t \<in> set V) V' = V"
proof (rule sorted_distinct_set_unique)
  show "sorted (filter (\<lambda>t. t \<in> set V) V')"
    using assms(3) by (rule sorted_wrt_filter)
  show "set (filter (\<lambda>t. t \<in> set V) V') = set V"
    using assms(5) by auto
qed (use assms in simp_all)

lemma count_of_absent: "t \<notin> fst ` set m \<Longrightarrow> count_of m t = 0"
  by (simp add: count_of_def map_of_eq_None_iff [THEN iffD2])

lemma adding_document:
  fixes xs ys :: "term_count list" and d :: term_count
  defines "V \<equiv> build_vocabulary (xs @ ys)"
    and "V' \<equiv> build_vocabulary (xs @ d # ys)"
  defines "others \<equiv> take (length xs) (build_matrix (xs @ d # ys) V') @
                     drop (Suc (length xs)) (build_matrix (xs @ d # ys) V')"
  shows "length V' = length V + card (fst ` set d - set V)"
    and "set V \<subseteq> set V'"
    and "map (\<lambda>row. map snd (filter (\<lambda>(t, v). t \<in> set V) (zip V' row))) others =
         build_matrix (xs @ ys) V"
    and "\<forall>row\<in>set others. \<forall>(t, v)\<in>set (zip V' row). t \<notin> set V \<longrightarrow> v = 0"
    and "V' = sorted_list_of_set (set V \<union> (fst ` set d - set V))"
    and "filter (\<lambda>t. t \<in> set V) V' = V"
    and "sorted_wrt (<) V'"
proof -
  have sV: "set V = (\<Union>m\<in>set (xs @ ys). fst ` set m)"
    by (simp add: V_def set_build_vocabulary)
  have sV': "set V' = set V \<union> fst ` set d"
    by (auto simp: V_def V'_def set_build_vocabulary)
  then show sub: "set V \<subseteq> set V'" by blast
  have "card (set V') = card (set V) + card (fst ` set d - set V)"
  proof -
    have "set V' = set V \<union> (fst ` set d - set V)" using sV' by blast
    moreover have "set V \<inter> (fst ` set d - set V) = {}" by blast
    ultimately show ?thesis
      by (metis List.finite_set card_Un_disjoint finite_Diff finite_imageI)
  qed
  then show "length V' = length V + card (fst ` set d - set V)"
    by (simp add: V_def V'_def distinct_build_vocabulary distinct_card)
  show flt: "filter (\<lambda>t. t \<in> set V) V' = V"
    using sub
    by (intro filter_sub_vocabulary)
       (simp_all add: V_def V'_def sorted_build_vocabulary distinct_build_vocabulary)
  have sd: "sorted V'" "distinct V'"
    by (simp_all add: V'_def sorted_build_vocabulary distinct_build_vocabulary)
  then show "sorted_wrt (<) V'"
    by (simp add: strict_sorted_iff)
  have "set V' = set V \<union> (fst ` set d - set V)" using sV' by blast
  with sd show "V' = sorted_list_of_set (set V \<union> (fst ` set d - set V))"
    by (metis sorted_list_of_set.idem_if_sorted_distinct)
  have others: "others = map (\<lambda>m. map (count_of m) V') (xs @ ys)"
    by (simp add: others_def build_matrix_def)
  show "map (\<lambda>row. map snd (filter (\<lambda>(t, v). t \<in> set V) (zip V' row))) others =
        build_matrix (xs @ ys) V"
    by (simp add: others build_matrix_def old_columns flt comp_def del: map_append)
  show "\<forall>row\<in>set others. \<forall>(t, v)\<in>set (zip V' row). t \<notin> set V \<longrightarrow> v = 0"
  proof (intro ballI)
    fix row p
    assume "row \<in> set others" and p: "p \<in> set (zip V' row)"
    then obtain m where m: "m \<in> set (xs @ ys)" and row: "row = map (count_of m) V'"
      unfolding others by auto
    from p obtain t where pt: "p = (t, count_of m t)"
      unfolding row zip_map_self by auto
    have "count_of m t = 0" if "t \<notin> set V"
    proof (rule count_of_absent)
      from m that show "t \<notin> fst ` set m" unfolding sV by blast
    qed
    then show "case p of (t, v) \<Rightarrow> t \<notin> set V \<longrightarrow> v = 0"
      by (simp add: pt)
  qed
qed

text \<open>
  Claim C8, as amended. Adding one document \<open>d\<close> anywhere in the corpus makes the
  vocabulary longer by exactly the number of distinct terms of \<open>d\<close> that no other
  document has, strictly longer when there is such a term. The new vocabulary is the
  old terms and the new ones together in strictly ascending lexicographic order, so
  every new column stands at its lexicographic position, not at the end, and the old
  terms keep their order. In the rows of the other documents every column of an old
  term keeps its value and every column of a new term is 0: deleting the new columns
  gives back the old rows.
\<close>

theorem vocabulary_monotone:
  "(let V = build_vocabulary (xs @ ys);
        V' = build_vocabulary (xs @ d # ys);
        new_terms = fst ` set d - set V;
        M' = build_matrix (xs @ d # ys) V';
        others = take (length xs) M' @ drop (Suc (length xs)) M'
    in length V' = length V + card new_terms
       \<and> (new_terms \<noteq> {} \<longrightarrow> length V < length V')
       \<and> set V \<subseteq> set V'
       \<and> V' = sorted_list_of_set (set V \<union> new_terms)
       \<and> sorted_wrt (<) V'
       \<and> filter (\<lambda>t. t \<in> set V) V' = V
       \<and> map (\<lambda>row. map snd (filter (\<lambda>(t, v). t \<in> set V) (zip V' row))) others =
           build_matrix (xs @ ys) V
       \<and> (\<forall>row\<in>set others. \<forall>(t, v)\<in>set (zip V' row). t \<notin> set V \<longrightarrow> v = 0))"
proof -
  have "fst ` set d - set (build_vocabulary (xs @ ys)) \<noteq> {} \<longrightarrow>
      0 < card (fst ` set d - set (build_vocabulary (xs @ ys)))"
    by (simp add: card_gt_0_iff)
  moreover note len = adding_document(1) [where xs=xs and ys=ys and d=d]
  ultimately have "fst ` set d - set (build_vocabulary (xs @ ys)) \<noteq> {} \<longrightarrow>
      length (build_vocabulary (xs @ ys)) < length (build_vocabulary (xs @ d # ys))"
    by simp
  with len adding_document(2-7) [where xs=xs and ys=ys and d=d] show ?thesis
    unfolding Let_def by (intro conjI)
qed

theorem vocabulary_monotone_witness:
  "build_vocabulary [count_tokens (tokenize_document ''b c'')] = [''b'', ''c'']
   \<and> build_vocabulary [count_tokens (tokenize_document ''b c''),
        count_tokens (tokenize_document ''a c a'')] = [''a'', ''b'', ''c'']
   \<and> sorted_wrt (<) (build_vocabulary ([count_tokens (tokenize_document ''b c'')] @
          count_tokens (tokenize_document ''a c a'') # []))
   \<and> build_matrix [count_tokens (tokenize_document ''b c'')] [''b'', ''c''] = [[1, 1]]
   \<and> build_matrix [count_tokens (tokenize_document ''b c''),
        count_tokens (tokenize_document ''a c a'')] [''a'', ''b'', ''c''] = [[0, 1, 1], [2, 0, 1]]
   \<and> length (build_vocabulary ([count_tokens (tokenize_document ''b c'')] @
          count_tokens (tokenize_document ''a c a'') # [])) =
       length (build_vocabulary ([count_tokens (tokenize_document ''b c'')] @ [])) +
       card (fst ` set (count_tokens (tokenize_document ''a c a'')) -
             set (build_vocabulary ([count_tokens (tokenize_document ''b c'')] @ [])))"
proof -
  have b: "count_tokens (tokenize_document ''b c'') = [(''b'', 1), (''c'', 1)]"
    by code_simp
  have a: "count_tokens (tokenize_document ''a c a'') = [(''a'', 2), (''c'', 1)]"
    by code_simp
  have v: "build_vocabulary [[(''b'', 1), (''c'', 1)]] = [''b'', ''c'']"
    by code_simp
  have v': "build_vocabulary [[(''b'', 1), (''c'', 1)], [(''a'', 2), (''c'', 1)]] =
      [''a'', ''b'', ''c'']"
    by code_simp
  have m: "build_matrix [[(''b'', 1), (''c'', 1)]] [''b'', ''c''] = [[1, 1]]"
    by code_simp
  have m': "build_matrix [[(''b'', 1), (''c'', 1)], [(''a'', 2), (''c'', 1)]]
      [''a'', ''b'', ''c''] = [[0, 1, 1], [2, 0, 1]]"
    by code_simp
  from vocabulary_monotone [of "[count_tokens (tokenize_document ''b c'')]" "[]"
      "count_tokens (tokenize_document ''a c a'')"]
  have "length (build_vocabulary ([count_tokens (tokenize_document ''b c'')] @
          count_tokens (tokenize_document ''a c a'') # [])) =
       length (build_vocabulary ([count_tokens (tokenize_document ''b c'')] @ [])) +
       card (fst ` set (count_tokens (tokenize_document ''a c a'')) -
             set (build_vocabulary ([count_tokens (tokenize_document ''b c'')] @ [])))"
    and "sorted_wrt (<) (build_vocabulary ([count_tokens (tokenize_document ''b c'')] @
          count_tokens (tokenize_document ''a c a'') # []))"
    unfolding Let_def by blast+
  with v v' m m' show ?thesis
    unfolding a b by simp
qed

text \<open>
  Claim C8 as stated fails on the corpus \<open>["b"]\<close> when the document \<open>"a"\<close> is added:
  the row of the first document goes from \<open>[1]\<close> to \<open>[0, 1]\<close>, so the new column is
  not appended and the old row is not a prefix of the new one.
\<close>

theorem appended_columns_counterexample:
  "build_matrix [count_tokens (tokenize_document ''b'')]
     (build_vocabulary [count_tokens (tokenize_document ''b'')]) = [[1]]
   \<and> build_matrix [count_tokens (tokenize_document ''b''), count_tokens (tokenize_document ''a'')]
       (build_vocabulary
          [count_tokens (tokenize_document ''b''), count_tokens (tokenize_document ''a'')]) =
       [[0, 1], [1, 0]]
   \<and> take 1 (build_matrix
         [count_tokens (tokenize_document ''b''), count_tokens (tokenize_document ''a'')]
         (build_vocabulary
            [count_tokens (tokenize_document ''b''), count_tokens (tokenize_document ''a'')]) ! 0)
       \<noteq> build_matrix [count_tokens (tokenize_document ''b'')]
           (build_vocabulary [count_tokens (tokenize_document ''b'')]) ! 0"
proof -
  have old: "build_matrix [count_tokens (tokenize_document ''b'')]
     (build_vocabulary [count_tokens (tokenize_document ''b'')]) = [[1]]"
    by code_simp
  have new: "build_matrix
       [count_tokens (tokenize_document ''b''), count_tokens (tokenize_document ''a'')]
       (build_vocabulary
          [count_tokens (tokenize_document ''b''), count_tokens (tokenize_document ''a'')]) =
       [[0, 1], [1, 0]]"
    by code_simp
  show ?thesis
    unfolding old new by simp
qed

section \<open>The collectives\<close>

lemma fold_index: "fold (\<lambda>i. f (xs ! i)) [0..<length xs] = fold f xs"
proof -
  have "fold (\<lambda>i. f (xs ! i)) [0..<length xs] = fold f (map (\<lambda>i. xs ! i) [0..<length xs])"
    by (simp add: fold_map comp_def)
  then show ?thesis by (simp add: map_nth)
qed

lemma map_index: "map (\<lambda>i. f (xs ! i)) [0..<length xs] = map f xs"
proof -
  have "map (\<lambda>i. f (xs ! i)) [0..<length xs] = map f (map (\<lambda>i. xs ! i) [0..<length xs])"
    by simp
  then show ?thesis by (simp only: map_nth)
qed

lemma mpi_gather_prefix:
  assumes "n \<le> length sends" and "length recvbuf = length sends"
  shows "fold (\<lambda>i buf. buf[i := sends ! i]) [0..<n] recvbuf = take n sends @ drop n recvbuf"
  using assms(1)
proof (induction n)
  case 0
  then show ?case by simp
next
  case (Suc n)
  then have n: "n < length sends" by simp
  have "drop n recvbuf = recvbuf ! n # drop (Suc n) recvbuf"
    using n assms(2) by (simp add: Cons_nth_drop_Suc)
  then have "(take n sends @ drop n recvbuf)[n := sends ! n] =
      take n sends @ [sends ! n] @ drop (Suc n) recvbuf"
    using n by (simp add: list_update_append)
  then have "(take n sends @ drop n recvbuf)[n := sends ! n] =
      take (Suc n) sends @ drop (Suc n) recvbuf"
    using n by (simp add: take_Suc_conv_app_nth)
  with Suc n show ?case by simp
qed

lemma mpi_gather_eq:
  "length recvbuf = length sends \<Longrightarrow> mpi_gather sends recvbuf = sends"
  using mpi_gather_prefix [of "length sends" sends recvbuf]
  by (simp add: mpi_gather_def)

lemma layout_eq:
  "start \<le> int_max \<Longrightarrow>
   layout cs start =
     (if start + sum_list cs \<le> int_max
      then Inr (map (\<lambda>i. start + sum_list (take i cs)) [0..<length cs], start + sum_list cs)
      else Inl Int_Out_Of_Range)"
proof (induction cs arbitrary: start)
  case Nil
  then show ?case by simp
next
  case (Cons c cs)
  have shift: "map (\<lambda>i. start + sum_list (take i (c # cs))) [0..<Suc (length cs)] =
      start # map (\<lambda>i. start + c + sum_list (take i cs)) [0..<length cs]"
    by (simp add: upt_conv_Cons map_Suc_upt [symmetric] add.assoc del: upt_Suc)
  show ?case
  proof (cases "start + c \<le> int_max")
    case True
    with Cons.IH [of "start + c"] shift show ?thesis
      by (simp add: to_int_def add.assoc)
  next
    case False
    then have "\<not> start + sum_list (c # cs) \<le> int_max" by simp
    with False show ?thesis
      by (simp add: to_int_def)
  qed
qed

lemma layout_offsets:
  "layout cs 0 =
     (if sum_list cs \<le> int_max then Inr (offsets cs, sum_list cs) else Inl Int_Out_Of_Range)"
  by (simp add: layout_eq offsets_def)

lemma int_sum_eq:
  "int_sum ns = (if sum_list ns \<le> int_max then Inr (sum_list ns) else Inl Int_Out_Of_Range)"
  by (simp add: int_sum_def layout_offsets)

lemma offsets_nth: "i < length cs \<Longrightarrow> offsets cs ! i = sum_list (take i cs)"
  by (simp add: offsets_def)

lemma length_concat_take:
  "sum_list (take i (map length xss)) = length (concat (take i xss))"
  by (simp add: length_concat take_map)

lemma mpi_gatherv_prefix:
  assumes "n \<le> length sends"
  shows "fold (\<lambda>i buf. write_block buf (offsets (map length sends) ! i)
                 (take (map length sends ! i) (sends ! i))) [0..<n] recvbuf =
         concat (take n sends) @ drop (length (concat (take n sends))) recvbuf"
  using assms
proof (induction n)
  case 0
  then show ?case by simp
next
  case (Suc n)
  then have n: "n < length sends" by simp
  then have displ: "offsets (map length sends) ! n = length (concat (take n sends))"
    by (simp add: offsets_nth length_concat_take)
  have block: "take (map length sends ! n) (sends ! n) = sends ! n"
    using n by simp
  have "write_block (concat (take n sends) @ drop (length (concat (take n sends))) recvbuf)
          (length (concat (take n sends))) (sends ! n) =
        concat (take n sends) @ sends ! n @
          drop (length (concat (take n sends)) + length (sends ! n)) recvbuf"
    by (simp add: write_block_def add.commute)
  also have "\<dots> = concat (take (Suc n) sends) @
      drop (length (concat (take (Suc n) sends))) recvbuf"
    using n by (simp add: take_Suc_conv_app_nth)
  finally show ?case
    using Suc n displ block by simp
qed

lemma mpi_gatherv_eq:
  assumes "counts = map length sends" and "displs = offsets counts"
    and "length recvbuf = sum_list counts"
  shows "mpi_gatherv sends counts displs recvbuf = concat sends"
  using mpi_gatherv_prefix [of "length sends" sends recvbuf] assms
  by (simp add: mpi_gatherv_def length_concat)

lemma concat_chunk:
  assumes "i < length xss"
  shows "take (length (xss ! i)) (drop (length (concat (take i xss))) (concat xss)) = xss ! i"
proof -
  have "xss = take i xss @ xss ! i # drop (Suc i) xss"
    using assms by (rule id_take_nth_drop)
  then have "concat xss = concat (take i xss) @ xss ! i @ concat (drop (Suc i) xss)"
    by (metis concat.simps(2) concat_append)
  then show ?thesis by simp
qed

lemma concat_rows:
  assumes "\<forall>x\<in>set xs. length (f x) = n" and "i < length xs"
  shows "take n (drop (i * n) (concat (map f xs))) = f (xs ! i)"
  using assms
proof (induction xs arbitrary: i)
  case Nil
  then show ?case by simp
next
  case (Cons x xs)
  show ?case
  proof (cases i)
    case 0
    with Cons.prems show ?thesis by simp
  next
    case (Suc j)
    with Cons.prems have "take n (drop (j * n) (concat (map f xs))) = f (xs ! j)"
      by (intro Cons.IH) simp_all
    with Suc Cons.prems show ?thesis by simp
  qed
qed

lemma mpi_bcast_eq:
  assumes "bufs \<noteq> []" and "\<forall>buf\<in>set bufs. length buf = n"
  shows "mpi_bcast n bufs = map (\<lambda>_. hd bufs) bufs"
proof -
  from assms have "length (hd bufs) = n" by simp
  with assms(2) show ?thesis by (simp add: mpi_bcast_def)
qed

lemma those_map_Some: "those (map (\<lambda>x. Some (f x)) xs) = Some (map f xs)"
  by (induction xs) simp_all

section \<open>The vocabulary synchronization\<close>

lemma fold_union:
  "set (fold (\<lambda>ws acc. fold insort_insert ws acc) wss acc) = \<Union> (set ` set wss) \<union> set acc
   \<and> (sorted acc \<longrightarrow> sorted (fold (\<lambda>ws acc. fold insort_insert ws acc) wss acc))
   \<and> (distinct acc \<longrightarrow> distinct (fold (\<lambda>ws acc. fold insort_insert ws acc) wss acc))"
proof (induction wss arbitrary: acc)
  case Nil
  then show ?case by simp
next
  case (Cons ws wss)
  let ?acc = "fold insort_insert ws acc"
  from fold_insort_insert [of ws acc]
  have s: "set ?acc = set ws \<union> set acc"
    and o: "sorted acc \<longrightarrow> sorted ?acc" and d: "distinct acc \<longrightarrow> distinct ?acc"
    by simp_all
  from Cons [of ?acc] s o d show ?case
    by (simp add: Un_ac)
qed

lemma join_words_Nil: "(join_words_with_newline ws = []) = (ws = [])"
  by (cases ws) (simp_all add: join_words_concat)

lemma union_chunks_eq:
  assumes wf: "\<forall>ws\<in>set lvs. \<forall>w\<in>set ws. w \<noteq> [] \<and> newline \<notin> set w"
    and ser: "ser = map join_words_with_newline lvs"
  shows "union_chunks (length lvs) (offsets (map length ser)) (map length ser) (concat ser) =
         fold (\<lambda>ws acc. fold insort_insert ws acc) lvs []"
proof -
  have step: "(let offset = offsets (map length ser) ! i; len = map length ser ! i
               in if len = 0 then acc
                  else let chunk = take len (drop offset (concat ser));
                           words = split_by_newline chunk
                       in fold insort_insert words acc) =
              fold insort_insert (lvs ! i) acc"
    if i: "i < length lvs" for i acc
  proof (cases "lvs ! i = []")
    case True
    with i show ?thesis by (simp add: ser join_words_Nil)
  next
    case False
    from i have i': "i < length ser" by (simp add: ser)
    then have off: "offsets (map length ser) ! i = length (concat (take i ser))"
      by (simp add: offsets_nth length_concat_take)
    from i' have len: "map length ser ! i = length (ser ! i)" by simp
    from i have si: "ser ! i = join_words_with_newline (lvs ! i)" by (simp add: ser)
    from i have "lvs ! i \<in> set lvs" by simp
    with wf have "\<forall>w\<in>set (lvs ! i). w \<noteq> [] \<and> newline \<notin> set w" by blast
    then have "split_by_newline (ser ! i) = lvs ! i"
      unfolding si by (rule split_join)
    moreover from False have "length (ser ! i) \<noteq> 0"
      by (simp add: si join_words_Nil)
    ultimately show ?thesis
      unfolding off len Let_def concat_chunk [OF i'] by simp
  qed
  have "union_chunks (length lvs) (offsets (map length ser)) (map length ser) (concat ser) =
      fold (\<lambda>i acc. fold insort_insert (lvs ! i) acc) [0..<length lvs] []"
    unfolding union_chunks_def
    by (rule fold_cong) (simp_all add: step)
  then show ?thesis
    by (simp add: fold_index)
qed

lemma build_vocabulary_unique:
  assumes "sorted G" and "distinct G" and "set G = (\<Union>m\<in>set docs. fst ` set m)"
  shows "G = build_vocabulary docs"
  using assms
  by (intro sorted_distinct_set_unique)
     (simp_all add: sorted_build_vocabulary distinct_build_vocabulary set_build_vocabulary)

lemma bcast_length:
  assumes "0 < W"
  shows "map hd (mpi_bcast 1 (map (\<lambda>r. [if r = 0 then n else 0]) [0..<W])) = replicate W (n::nat)"
proof -
  from assms have ne: "map (\<lambda>r. [if r = 0 then n else 0]) [0..<W] \<noteq> []" by simp
  from assms have h: "hd (map (\<lambda>r. [if r = 0 then n else 0]) [0..<W]) = [n]"
    by (simp add: hd_map upt_conv_Cons)
  have "mpi_bcast 1 (map (\<lambda>r. [if r = 0 then n else 0]) [0..<W]) =
      map (\<lambda>_. hd (map (\<lambda>r. [if r = 0 then n else 0]) [0..<W]))
        (map (\<lambda>r. [if r = 0 then n else 0]) [0..<W])"
    using ne by (rule mpi_bcast_eq) simp
  then show ?thesis
    unfolding h by (simp add: comp_def map_replicate_const)
qed

lemma bcast_bytes:
  assumes "0 < W"
  shows "mpi_bcast (length bv)
           (map (\<lambda>r. if r = 0 then bv else replicate (replicate W (length bv) ! r) c) [0..<W]) =
         replicate W bv"
proof -
  let ?bufs = "map (\<lambda>r. if r = 0 then bv else replicate (replicate W (length bv) ! r) c) [0..<W]"
  from assms have ne: "?bufs \<noteq> []" by simp
  from assms have h: "hd ?bufs = bv"
    by (simp add: hd_map upt_conv_Cons)
  have "mpi_bcast (length bv) ?bufs = map (\<lambda>_. hd ?bufs) ?bufs"
    using ne by (rule mpi_bcast_eq) auto
  then show ?thesis
    unfolding h by (simp add: comp_def map_replicate_const)
qed

lemma length_join_words:
  "length (join_words_with_newline ws) = sum_list (map (\<lambda>w. Suc (length w)) ws)"
  by (simp add: join_words_concat length_concat comp_def)

lemma length_le_join_words: "length ws \<le> length (join_words_with_newline ws)"
  unfolding length_join_words by (induction ws) simp_all

lemma sum_Union_le:
  fixes f :: "'a \<Rightarrow> nat"
  shows "sum f (\<Union> (set ` set wss)) \<le> sum_list (map (\<lambda>ws. sum f (set ws)) wss)"
proof (induction wss)
  case Nil
  then show ?case by simp
next
  case (Cons ws wss)
  have "sum f (set ws \<union> \<Union> (set ` set wss)) \<le> sum f (set ws) + sum f (\<Union> (set ` set wss))"
    by (simp add: sum_Un_nat)
  with Cons show ?case by simp
qed

lemma union_bytes_le:
  assumes "\<forall>ws\<in>set lvs. distinct ws" and "distinct G" and "set G = \<Union> (set ` set lvs)"
  shows "length (join_words_with_newline G) \<le>
         sum_list (map (\<lambda>ws. length (join_words_with_newline ws)) lvs)"
proof -
  have "length (join_words_with_newline G) = sum (\<lambda>w. Suc (length w)) (\<Union> (set ` set lvs))"
    using assms(2,3) by (simp add: length_join_words sum_list_distinct_conv_sum_set)
  also have "\<dots> \<le> sum_list (map (\<lambda>ws. sum (\<lambda>w. Suc (length w)) (set ws)) lvs)"
    by (rule sum_Union_le)
  also have "\<dots> = sum_list (map (\<lambda>ws. length (join_words_with_newline ws)) lvs)"
    using assms(1)
    by (intro arg_cong [where f = sum_list] map_cong refl)
       (simp add: length_join_words sum_list_distinct_conv_sum_set)
  finally show ?thesis .
qed

lemma each_int_eq:
  "sum_list ns \<le> int_max \<Longrightarrow> each_int ns = Inr ns"
proof -
  assume "sum_list ns \<le> int_max"
  then have "\<forall>n\<in>set ns. n \<le> int_max"
    using member_le_sum_list by fastforce
  then show ?thesis
    by (simp add: each_int_def list_all_iff)
qed

lemma synchronize_vocabulary_eq:
  assumes ne: "lcs \<noteq> []"
    and wf: "\<forall>lc\<in>set lcs. \<forall>m\<in>set lc. \<forall>k\<in>fst ` set m. k \<noteq> [] \<and> newline \<notin> set k"
  shows "synchronize_vocabulary lcs =
    (if sum_list (map (\<lambda>lc. length (join_words_with_newline (local_vocab lc))) lcs) \<le> int_max
     then Inr (replicate (length lcs) (build_vocabulary (concat lcs)))
     else Inl Int_Out_Of_Range)"
proof -
  define lvs where "lvs = map local_vocab lcs"
  define ser where "ser = map (\<lambda>local_counts. join_words_with_newline (local_vocab local_counts)) lcs"
  define G where "G = fold (\<lambda>ws acc. fold insort_insert ws acc) lvs []"
  have ser': "ser = map join_words_with_newline lvs"
    by (simp add: ser_def lvs_def)
  have bytes: "sum_list (map (\<lambda>lc. length (join_words_with_newline (local_vocab lc))) lcs) =
      sum_list (map length ser)"
    by (simp add: ser_def comp_def)
  have len: "length ser = length lcs" "length lvs = length lcs"
    by (simp_all add: ser_def lvs_def)
  have g1: "mpi_gather (map length ser) (replicate (length lcs) 0) = map length ser"
    by (rule mpi_gather_eq) (simp add: len)
  show ?thesis
  proof (cases "sum_list (map length ser) \<le> int_max")
    case False
    then show ?thesis
      unfolding bytes synchronize_vocabulary_def ser_def [symmetric] Let_def
      by (simp add: each_int_def g1 layout_offsets)
  next
    case True
    have wf_lvs: "\<forall>ws\<in>set lvs. \<forall>w\<in>set ws. w \<noteq> [] \<and> newline \<notin> set w"
      using wf by (auto simp: lvs_def set_local_vocab)
    from fold_union [of lvs "[]"]
    have G: "set G = \<Union> (set ` set lvs)" "sorted G" "distinct G"
      by (simp_all add: G_def)
    have "set G = (\<Union>m\<in>set (concat lcs). fst ` set m)"
      unfolding G(1) by (auto simp: lvs_def set_local_vocab)
    with G have GV: "G = build_vocabulary (concat lcs)"
      by (intro build_vocabulary_unique)
    have wf_G: "\<forall>w\<in>set G. w \<noteq> [] \<and> newline \<notin> set w"
      using wf_lvs unfolding G(1) by blast
    have rt: "split_by_newline (join_words_with_newline G) = G"
      using wf_G by (rule split_join)
    have e1: "each_int (map length ser) = Inr (map length ser)"
      using True by (rule each_int_eq)
    have l2: "layout (map length ser) 0 = Inr (offsets (map length ser), sum_list (map length ser))"
      using True by (simp add: layout_offsets)
    have g2: "mpi_gatherv ser (map length ser) (offsets (map length ser))
        (replicate (sum_list (map length ser)) (CHR 0x00)) = concat ser"
      by (rule mpi_gatherv_eq) simp_all
    have u: "union_chunks (length lcs) (offsets (map length ser)) (map length ser)
        (concat ser) = G"
      using union_chunks_eq [OF wf_lvs ser'] by (simp add: len G_def)
    have "length (join_words_with_newline G) \<le>
        sum_list (map (\<lambda>ws. length (join_words_with_newline ws)) lvs)"
      using G(3,1) by (intro union_bytes_le) (simp_all add: lvs_def distinct_local_vocab)
    also have "\<dots> = sum_list (map length ser)"
      by (simp add: ser' comp_def)
    finally have t3: "to_int (length (join_words_with_newline G)) =
        Inr (length (join_words_with_newline G))"
      using True by (simp add: to_int_def)
    from ne have W: "0 < length lcs" by simp
    have "synchronize_vocabulary lcs =
        Inr (map split_by_newline (replicate (length lcs) (join_words_with_newline G)))"
      unfolding synchronize_vocabulary_def ser_def [symmetric] Let_def
        e1 sum.case g1 l2 prod.case g2 u t3 bcast_length [OF W]
      using W bcast_bytes [OF W, of "join_words_with_newline G" "CHR 0x00"]
      by (simp add: hd_replicate)
    with True show ?thesis
      unfolding bytes by (simp add: rt GV [symmetric])
  qed
qed

section \<open>Dense rows\<close>

lemma vocab_index_prefix:
  assumes "distinct G" and "n \<le> length G"
  shows "(\<forall>i<length G.
            fold (\<lambda>i m. if m (G ! i) = None then m(G ! i \<mapsto> i) else m) [0..<n] Map.empty (G ! i) =
            (if i < n then Some i else None))
         \<and> (\<forall>w. w \<notin> set G \<longrightarrow>
            fold (\<lambda>i m. if m (G ! i) = None then m(G ! i \<mapsto> i) else m) [0..<n] Map.empty w = None)"
  using assms(2)
proof (induction n)
  case 0
  then show ?case by simp
next
  case (Suc n)
  let ?m = "fold (\<lambda>i m. if m (G ! i) = None then m(G ! i \<mapsto> i) else m) [0..<n] Map.empty"
  from Suc have n: "n < length G" by simp
  with Suc have IH1: "\<forall>i<length G. ?m (G ! i) = (if i < n then Some i else None)"
    and IH2: "\<forall>w. w \<notin> set G \<longrightarrow> ?m w = None"
    by simp_all
  from IH1 n have free: "?m (G ! n) = None" by simp
  have next_m: "fold (\<lambda>i m. if m (G ! i) = None then m(G ! i \<mapsto> i) else m) [0..<Suc n] Map.empty =
      ?m(G ! n \<mapsto> n)"
    using free by simp
  have "(?m(G ! n \<mapsto> n)) (G ! i) = (if i < Suc n then Some i else None)" if "i < length G" for i
  proof (cases "i = n")
    case True
    then show ?thesis by simp
  next
    case False
    with that n assms(1) have "G ! i \<noteq> G ! n"
      by (simp add: nth_eq_iff_index_eq)
    with IH1 that False show ?thesis by auto
  qed
  moreover have "(?m(G ! n \<mapsto> n)) w = None" if "w \<notin> set G" for w
  proof -
    from that n have "w \<noteq> G ! n" by auto
    with IH2 that show ?thesis by simp
  qed
  ultimately show ?case
    unfolding next_m by blast
qed

lemma vocab_index_nth:
  "distinct G \<Longrightarrow> i < length G \<Longrightarrow> make_vocab_index G (G ! i) = Some i"
  using vocab_index_prefix [of G "length G"] by (simp add: make_vocab_index_def)

lemma vocab_index_absent:
  "distinct G \<Longrightarrow> w \<notin> set G \<Longrightarrow> make_vocab_index G w = None"
  using vocab_index_prefix [of G "length G"] by (simp add: make_vocab_index_def)

lemma dense_row_fold:
  fixes G :: "string list"
  defines "step \<equiv> (\<lambda>entry row. case make_vocab_index G (fst entry) of
                                    Some j \<Rightarrow> row[j := snd entry] | None \<Rightarrow> row)"
  assumes G: "distinct G"
  shows "distinct (map fst m) \<Longrightarrow> length row = length G \<Longrightarrow>
    length (fold step m row) = length G
    \<and> (\<forall>j<length G. fold step m row ! j =
           (case map_of m (G ! j) of Some v \<Rightarrow> v | None \<Rightarrow> (row ! j :: int)))"
proof (induction m arbitrary: row)
  case Nil
  then show ?case by simp
next
  case (Cons e m)
  obtain k v where e: "e = (k, v)" by (cases e)
  from Cons.prems e have dm: "distinct (map fst m)" and fresh: "k \<notin> fst ` set m"
    by simp_all
  have lr: "length (step e row) = length G"
    using Cons.prems(2) by (simp add: step_def split: option.split)
  from Cons.IH [OF dm lr]
  have IH1: "length (fold step m (step e row)) = length G"
    and IH2: "\<forall>j<length G. fold step m (step e row) ! j =
         (case map_of m (G ! j) of Some v \<Rightarrow> v | None \<Rightarrow> step e row ! j)"
    by simp_all
  have cell: "step e row ! j = (if G ! j = k then v else row ! j)" if j: "j < length G" for j
  proof (cases "k \<in> set G")
    case True
    then obtain i where i: "i < length G" and ki: "G ! i = k"
      by (auto simp: in_set_conv_nth)
    then have idx: "make_vocab_index G k = Some i"
      using vocab_index_nth [OF G i] by simp
    have "(G ! j = k) = (j = i)"
      using G i j ki by (auto simp: nth_eq_iff_index_eq)
    with idx i Cons.prems(2) show ?thesis by (simp add: step_def e)
  next
    case False
    with j have "G ! j \<noteq> k" by auto
    with False show ?thesis
      by (simp add: step_def e vocab_index_absent [OF G])
  qed
  have "fold step (e # m) row ! j =
        (case map_of (e # m) (G ! j) of Some v \<Rightarrow> v | None \<Rightarrow> row ! j)" if j: "j < length G" for j
  proof (cases "G ! j = k")
    case True
    with fresh have "map_of m (G ! j) = None"
      by (simp add: map_of_eq_None_iff)
    with True cell [OF j] IH2 j show ?thesis by (simp add: e)
  next
    case False
    from IH2 j have "fold step m (step e row) ! j =
         (case map_of m (G ! j) of Some v \<Rightarrow> v | None \<Rightarrow> step e row ! j)" by simp
    also have "\<dots> = (case map_of m (G ! j) of Some v \<Rightarrow> v | None \<Rightarrow> row ! j)"
      using cell [OF j] False by (simp cong: option.case_cong)
    finally show ?thesis using False by (simp add: e)
  qed
  with IH1 show ?case by simp
qed

lemma dense_row_eq:
  assumes "distinct G" and "distinct (map fst m)"
  shows "dense_row (make_vocab_index G) (length G) m = map (count_of m) G"
proof (rule nth_equalityI)
  from dense_row_fold [OF assms, of "replicate (length G) 0"]
  have l: "length (dense_row (make_vocab_index G) (length G) m) = length G"
    and c: "\<forall>j<length G. dense_row (make_vocab_index G) (length G) m ! j =
         (case map_of m (G ! j) of Some v \<Rightarrow> v | None \<Rightarrow> replicate (length G) 0 ! j)"
    by (simp_all add: dense_row_def)
  from l show "length (dense_row (make_vocab_index G) (length G) m) = length (map (count_of m) G)"
    by simp
  fix j
  assume "j < length (dense_row (make_vocab_index G) (length G) m)"
  with l have j: "j < length G" by simp
  with c show "dense_row (make_vocab_index G) (length G) m ! j = map (count_of m) G ! j"
    by (simp add: count_of_def split: option.split)
qed

lemma fold_append_concat: "fold (\<lambda>x acc. acc @ f x) xs acc = acc @ concat (map f xs)"
  by (induction xs arbitrary: acc) simp_all

lemma flatten_rows_eq:
  assumes "distinct G" and "\<forall>m\<in>set lc. distinct (map fst m)"
  shows "flatten_rows G lc = concat (map (\<lambda>m. map (count_of m) G) lc)"
proof -
  have "dense_row (make_vocab_index G) (length G) m = map (count_of m) G" if "m \<in> set lc" for m
    using assms that by (intro dense_row_eq) simp_all
  then show ?thesis
    by (simp add: flatten_rows_def Let_def fold_append_concat cong: map_cong)
qed

lemma pair_rows_fold:
  "fold (\<lambda>i (ordered_rows, offset).
           (ordered_rows @ [(idxs ! i, if vs > 0 then take vs (drop offset vals)
                                       else replicate vs 0)],
            offset + vs)) [0..<n] ([], 0) =
   (map (\<lambda>i. (idxs ! i, if vs > 0 then take vs (drop (i * vs) vals) else replicate vs 0)) [0..<n],
    n * vs)"
  by (induction n) simp_all

lemma pair_rows_map:
  "pair_rows n vs idxs vals =
     map (\<lambda>i. (idxs ! i, if vs > 0 then take vs (drop (i * vs) vals) else replicate vs 0)) [0..<n]"
  unfolding pair_rows_def pair_rows_fold by (rule fst_conv)

lemma pair_rows_eq:
  assumes "length idxs = length docs"
  shows "pair_rows (length docs) (length G) idxs (concat (map (\<lambda>m. map (count_of m) G) docs)) =
         zip idxs (map (\<lambda>m. map (count_of m) G) docs)"
proof (rule nth_equalityI)
  show "length (pair_rows (length docs) (length G) idxs
           (concat (map (\<lambda>m. map (count_of m) G) docs))) =
        length (zip idxs (map (\<lambda>m. map (count_of m) G) docs))"
    unfolding pair_rows_map using assms by simp
next
  fix i
  assume "i < length (pair_rows (length docs) (length G) idxs
           (concat (map (\<lambda>m. map (count_of m) G) docs)))"
  then have i: "i < length docs"
    unfolding pair_rows_map by simp
  have "take (length G) (drop (i * length G) (concat (map (\<lambda>m. map (count_of m) G) docs))) =
      map (count_of (docs ! i)) G"
    using i by (intro concat_rows) simp_all
  then show "pair_rows (length docs) (length G) idxs
           (concat (map (\<lambda>m. map (count_of m) G) docs)) ! i =
        zip idxs (map (\<lambda>m. map (count_of m) G) docs) ! i"
    unfolding pair_rows_map using i assms by (cases "G = []") simp_all
qed

lemma insort_key_pairs:
  "insort_key fst (i, g i) (map (\<lambda>i. (i, g i)) xs) = map (\<lambda>i. (i, g i)) (insort i xs)"
  by (induction xs) simp_all

lemma sort_key_pairs:
  "sort_key fst (map (\<lambda>i. (i, g i)) xs) = map (\<lambda>i. (i, g i)) (sort xs)"
  by (induction xs) (simp_all add: insort_key_pairs)

section \<open>The collective phases\<close>

lemma length_concat_rows:
  "length (concat (map (\<lambda>m. map (f m) G) lc)) = length lc * length G"
  by (induction lc) simp_all

lemma concat_map_concat:
  "concat (map (\<lambda>xs. concat (map f xs)) xss) = concat (map f (concat xss))"
  by (induction xss) simp_all

lemma sum_list_times: "sum_list (map (\<lambda>c. c * (k::nat)) ns) = sum_list ns * k"
  by (induction ns) (simp_all add: add_mult_distrib)

lemma collective_phases_eq:
  fixes D :: "nat \<Rightarrow> term_count"
  assumes ne: "locals \<noteq> []"
    and shape: "\<forall>l\<in>set locals. fst l = map D (fst (snd l))"
    and wfD: "\<forall>i. distinct (map fst (D i)) \<and> (\<forall>k\<in>fst ` set (D i). k \<noteq> [] \<and> newline \<notin> set k)"
  defines "idxs \<equiv> concat (map (fst \<circ> snd) locals)"
  defines "G \<equiv> build_vocabulary (map D idxs)"
  shows "collective_phases paths locals =
    (if sum_list (map (\<lambda>l. length (join_words_with_newline (local_vocab (fst l)))) locals)
          \<le> int_max
        \<and> length idxs \<le> int_max \<and> length idxs * length G \<le> int_max
     then Inr
      \<lparr>par_collectives =
         [MPI_Gather, MPI_Gatherv, MPI_Bcast, MPI_Bcast, MPI_Gather, MPI_Gatherv, MPI_Gatherv,
          MPI_Barrier, MPI_Reduce],
       par_vocabulary = replicate (length locals) G,
       par_stderr =
         (if idxs \<noteq> [] then map (snd \<circ> snd) locals
          else (map (snd \<circ> snd) locals)[0 := hd (map (snd \<circ> snd) locals) @ [No_Rows_Generated]]),
       par_written =
         (if idxs \<noteq> []
          then Some \<lparr>csv_vocabulary = G,
                 csv_doc_names = map (\<lambda>i. filename (paths ! i)) (sort idxs),
                 csv_matrix = map (\<lambda>i. map (count_of (D i)) G) (sort idxs)\<rparr>
          else None)\<rparr>
     else Inl Int_Out_Of_Range)"
proof -
  define W where "W = length locals"
  define lcs where "lcs = map fst locals"
  define lis where "lis = map (fst \<circ> snd) locals"
  define flats where "flats = map (\<lambda>lc. concat (map (\<lambda>m. map (count_of m) G) lc)) lcs"
  from ne have W: "0 < W" by (simp add: W_def)
  have len: "length lcs = W" "length lis = W" by (simp_all add: lcs_def lis_def W_def)
  have lcs_lis: "lcs = map (map D) lis"
    using shape by (simp add: lcs_def lis_def)
  have idxs: "concat lis = idxs" by (simp add: idxs_def lis_def)
  have docs: "concat lcs = map D idxs"
    unfolding lcs_lis idxs [symmetric] by (simp add: map_concat)
  have bytes: "sum_list (map (\<lambda>l. length (join_words_with_newline (local_vocab (fst l)))) locals) =
      sum_list (map (\<lambda>lc. length (join_words_with_newline (local_vocab lc))) lcs)"
    by (simp add: lcs_def comp_def)
  have wf: "\<forall>lc\<in>set lcs. \<forall>m\<in>set lc. \<forall>k\<in>fst ` set m. k \<noteq> [] \<and> newline \<notin> set k"
    using wfD unfolding lcs_lis by auto
  from len W have lne: "lcs \<noteq> []" by auto
  note sync = synchronize_vocabulary_eq [OF lne wf, unfolded docs G_def [symmetric] len]
  have tr: "sum_list (map length lcs) = length idxs"
    using arg_cong [OF docs, of length] by (simp add: length_concat)
  have g1: "mpi_gather (map length lcs) (replicate W 0) = map length lcs"
    by (rule mpi_gather_eq) (simp add: len)
  have hdG: "hd (replicate W x) = x" for x :: "'b"
    using W by (cases W) simp_all
  show ?thesis
  proof (cases "sum_list (map (\<lambda>lc. length (join_words_with_newline (local_vocab lc))) lcs)
      \<le> int_max")
    case False
    then show ?thesis
      unfolding bytes collective_phases_def Let_def lcs_def [symmetric] sync
      by simp
  next
    case B: True
    then have sv: "synchronize_vocabulary lcs = Inr (replicate W G)"
      by (simp add: sync)
    have dG: "distinct G" by (simp add: G_def distinct_build_vocabulary)
    have "length G \<le> length (join_words_with_newline G)"
      by (rule length_le_join_words)
    also have "\<dots> \<le> sum_list (map (\<lambda>ws. length (join_words_with_newline ws))
        (map local_vocab lcs))"
      using dG
      by (intro union_bytes_le)
         (auto simp: distinct_local_vocab G_def docs [symmetric] set_build_vocabulary
            set_local_vocab)
    also have "\<dots> \<le> int_max"
      using B by (simp add: comp_def)
    finally have Gfit: "length G \<le> int_max" .
    have e_vs: "each_int (map length (replicate W G)) = Inr (replicate W (length G))"
      using Gfit by (simp add: each_int_def list_all_iff)
    show ?thesis
    proof (cases "length idxs \<le> int_max")
      case False
      then show ?thesis
        unfolding bytes collective_phases_def Let_def W_def [symmetric] lcs_def [symmetric]
          lis_def [symmetric] sv sum.case e_vs
        by (simp add: each_int_def g1 layout_offsets tr)
    next
      case R: True
      have e_rc: "each_int (map length lcs) = Inr (map length lcs)"
        using R by (intro each_int_eq) (simp add: tr)
      have l1: "layout (map length lcs) 0 = Inr (offsets (map length lcs), length (map D idxs))"
        using R by (simp add: layout_offsets tr)
      have g2: "mpi_gatherv lis (map length lcs) (offsets (map length lcs))
          (replicate (length (map D idxs)) 0) = idxs"
      proof -
        have "mpi_gatherv lis (map length lcs) (offsets (map length lcs))
            (replicate (length (map D idxs)) 0) = concat lis"
          by (rule mpi_gatherv_eq) (simp_all add: lcs_lis comp_def idxs [symmetric] length_concat)
        then show ?thesis by (simp only: idxs)
      qed
      have lvc: "map (\<lambda>r. replicate W (length G) ! r * map length lcs ! r) [0..<W] =
          map (\<lambda>c. c * length G) (map length lcs)"
      proof -
        have "map (\<lambda>r. replicate W (length G) ! r * map length lcs ! r) [0..<W] =
            map (\<lambda>r. length (lcs ! r) * length G) [0..<length lcs]"
          by (simp add: len mult.commute)
        also have "\<dots> = map (\<lambda>lc. length lc * length G) lcs"
          by (rule map_index [of "\<lambda>lc. length lc * length G" lcs])
        finally show ?thesis by (simp add: comp_def)
      qed
      have cells: "sum_list (map (\<lambda>c. c * length G) (map length lcs)) = length idxs * length G"
        by (simp only: sum_list_times tr)
      show ?thesis
      proof (cases "length idxs * length G \<le> int_max")
        case False
        then show ?thesis
          unfolding bytes collective_phases_def Let_def W_def [symmetric] lcs_def [symmetric]
            lis_def [symmetric] sv sum.case e_vs e_rc hdG g1 l1 prod.case lvc
          by (simp add: each_int_def layout_offsets cells [unfolded map_map])
      next
        case C: True
        have fl: "map (\<lambda>r. flatten_rows (replicate W G ! r) (lcs ! r)) [0..<W] = flats"
        proof -
          have "flatten_rows (replicate W G ! r) (lcs ! r) =
              concat (map (\<lambda>m. map (count_of m) G) (lcs ! r))" if "r < W" for r
          proof -
            from that len have "lcs ! r \<in> set lcs" by simp
            then have "\<forall>m\<in>set (lcs ! r). distinct (map fst m)"
              using wfD unfolding lcs_lis by auto
            with dG that show ?thesis by (simp add: flatten_rows_eq)
          qed
          then have "map (\<lambda>r. flatten_rows (replicate W G ! r) (lcs ! r)) [0..<W] =
              map (\<lambda>r. concat (map (\<lambda>m. map (count_of m) G) (lcs ! r))) [0..<length lcs]"
            by (simp add: len)
          also have "\<dots> = map (\<lambda>lc. concat (map (\<lambda>m. map (count_of m) G) lc)) lcs"
            by (rule map_index [of "\<lambda>lc. concat (map (\<lambda>m. map (count_of m) G) lc)" lcs])
          finally show ?thesis
            unfolding flats_def .
        qed
        have vc: "map (\<lambda>c. c * length G) (map length lcs) = map length flats"
          by (simp add: flats_def length_concat_rows comp_def)
        have cells': "sum_list (map length flats) = length idxs * length G"
          using cells unfolding vc .
        have e_vc: "each_int (map length flats) = Inr (map length flats)"
          using C by (intro each_int_eq) (simp add: cells')
        have l2: "layout (map length flats) 0 =
            Inr (offsets (map length flats), sum_list (map length flats))"
          using C by (simp add: layout_offsets cells')
        have g3: "mpi_gatherv flats (map length flats) (offsets (map length flats))
            (replicate (sum_list (map length flats)) 0) =
            concat (map (\<lambda>m. map (count_of m) G) (map D idxs))"
        proof -
          have "mpi_gatherv flats (map length flats) (offsets (map length flats))
            (replicate (sum_list (map length flats)) 0) = concat flats"
            by (rule mpi_gatherv_eq) simp_all
          then show ?thesis
            by (simp add: flats_def concat_map_concat docs)
        qed
        have isum: "int_sum (map length lcs) = Inr (length (map D idxs))"
          using R by (simp add: int_sum_eq tr)
        have pr: "pair_rows (length (map D idxs)) (length G) idxs
            (concat (map (\<lambda>m. map (count_of m) G) (map D idxs))) =
            map (\<lambda>i. (i, map (count_of (D i)) G)) idxs"
        proof -
          have "pair_rows (length (map D idxs)) (length G) idxs
              (concat (map (\<lambda>m. map (count_of m) G) (map D idxs))) =
              zip idxs (map (\<lambda>m. map (count_of m) G) (map D idxs))"
            by (rule pair_rows_eq) simp
          also have "\<dots> = zip idxs (map (\<lambda>i. map (count_of (D i)) G) idxs)"
            by (simp add: comp_def)
          also have "\<dots> = map (\<lambda>i. (i, map (count_of (D i)) G)) idxs"
            by (rule zip_map_self)
          finally show ?thesis .
        qed
        have sn: "(sort idxs = []) = (idxs = [])"
          by (metis length_0_conv length_sort)
        from B R C show ?thesis
          unfolding bytes collective_phases_def Let_def W_def [symmetric] lcs_def [symmetric]
            lis_def [symmetric] sv sum.case e_vs e_rc hdG g1 fl l1 prod.case g2 lvc vc e_vc l2
            g3 isum pr sort_key_pairs
          by (simp add: comp_def sn)
      qed
    qed
  qed
qed

section \<open>The local phase and the whole distributed run\<close>

lemma fold_local_body_Inl: "fold (local_body fs paths) is (Inl f) = Inl f"
  by (induction "is") (simp_all add: local_body_def)

lemma local_body_fold:
  "fold (local_body fs paths) is (Inr (lc, li, err)) =
     (if list_all (\<lambda>i. i \<le> int_max) [i \<leftarrow> is. kept fs (paths ! i)]
      then Inr (lc @ map (\<lambda>i. doc_counts fs (paths ! i)) [i \<leftarrow> is. kept fs (paths ! i)],
                li @ [i \<leftarrow> is. kept fs (paths ! i)],
                err @ concat (map (\<lambda>i. snd (read_file fs (paths ! i))) is))
      else Inl Int_Out_Of_Range)"
proof (induction "is" arbitrary: lc li err)
  case Nil
  then show ?case by simp
next
  case (Cons i "is")
  obtain c e where r: "read_file fs (paths ! i) = (c, e)" by (cases "read_file fs (paths ! i)")
  show ?case
  proof (cases "c = []")
    case True
    with r Cons [of lc li "err @ e"] show ?thesis
      by (simp add: local_body_def kept_def bytes_of_def)
  next
    case False
    show ?thesis
    proof (cases "i \<le> int_max")
      case True
      with False r Cons [of "lc @ [count_tokens (tokenize_document c)]" "li @ [i]" "err @ e"]
      show ?thesis
        by (simp add: local_body_def kept_def bytes_of_def doc_counts_def to_int_def)
    next
      case over: False
      have "local_body fs paths i (Inr (lc, li, err)) = Inl Int_Out_Of_Range"
        using False r over by (simp add: local_body_def to_int_def)
      with False r over show ?thesis
        by (simp add: fold_local_body_Inl kept_def bytes_of_def)
    qed
  qed
qed

lemma local_documents_eq:
  assumes "r < W"
  shows "local_documents fs paths W r =
     Some (if list_all (\<lambda>i. i \<le> int_max) [i \<leftarrow> assigned (length paths) W r. kept fs (paths ! i)]
           then Inr (rank_counts fs paths W r,
                     [i \<leftarrow> assigned (length paths) W r. kept fs (paths ! i)],
                     concat (map (\<lambda>i. snd (read_file fs (paths ! i))) (assigned (length paths) W r)))
           else Inl Int_Out_Of_Range)"
  unfolding local_documents_def strided_for_assigned [OF assms] local_body_fold rank_counts_def
  by simp

lemma all_ranks_eq:
  "all_ranks (map (\<lambda>r. if P r then Inr (g r) else Inl Int_Out_Of_Range) rs) =
     (if \<forall>r\<in>set rs. P r then Inr (map g rs) else Inl Int_Out_Of_Range)"
  by (induction rs) simp_all

lemma kept_indices_ranks:
  assumes "0 < W"
  shows "(\<forall>r\<in>set [0..<W].
            list_all (\<lambda>i. i \<le> int_max) [i \<leftarrow> assigned (length paths) W r. kept fs (paths ! i)]) =
         list_all (\<lambda>i. i \<le> int_max) (kept_indices fs paths)"
proof -
  have "i mod W < W" for i using assms by simp
  then show ?thesis
    unfolding list_all_iff kept_indices_def
    by (auto simp: set_assigned)
qed

lemma those_local_documents:
  "those (map (local_documents fs paths W) [0..<W]) =
     Some (map (\<lambda>r.
       if list_all (\<lambda>i. i \<le> int_max) [i \<leftarrow> assigned (length paths) W r. kept fs (paths ! i)]
       then Inr (rank_counts fs paths W r,
                 [i \<leftarrow> assigned (length paths) W r. kept fs (paths ! i)],
                 concat (map (\<lambda>i. snd (read_file fs (paths ! i))) (assigned (length paths) W r)))
       else Inl Int_Out_Of_Range)
       [0..<W])"
proof -
  have "map (local_documents fs paths W) [0..<W] =
     map (\<lambda>r. Some
       (if list_all (\<lambda>i. i \<le> int_max) [i \<leftarrow> assigned (length paths) W r. kept fs (paths ! i)]
        then Inr (rank_counts fs paths W r,
                  [i \<leftarrow> assigned (length paths) W r. kept fs (paths ! i)],
                  concat (map (\<lambda>i. snd (read_file fs (paths ! i))) (assigned (length paths) W r)))
        else Inl Int_Out_Of_Range))
       [0..<W]"
    by (rule map_cong) (simp_all add: local_documents_eq)
  then show ?thesis
    by (simp only: those_map_Some)
qed

text \<open>Every rank's loop ends, and the ranks go on to the collectives exactly when the
  index of every document kept is an \<^verbatim>\<open>int\<close>.\<close>

lemma local_phase:
  assumes W: "0 < W"
  shows "(case those (map (local_documents fs paths W) [0..<W]) of
            None \<Rightarrow> None
          | Some rank_results \<Rightarrow>
              (case all_ranks rank_results of
                 Inl f \<Rightarrow> Some (Inl f)
               | Inr locals \<Rightarrow> Some (collective_phases paths locals))) =
     Some (if list_all (\<lambda>i. i \<le> int_max) (kept_indices fs paths)
           then collective_phases paths (map (\<lambda>r.
                  (rank_counts fs paths W r,
                   [i \<leftarrow> assigned (length paths) W r. kept fs (paths ! i)],
                   concat (map (\<lambda>i. snd (read_file fs (paths ! i)))
                     (assigned (length paths) W r)))) [0..<W])
           else Inl Int_Out_Of_Range)"
  unfolding those_local_documents option.case all_ranks_eq kept_indices_ranks [OF W]
  by simp

lemma sum_list_indicator:
  "sum_list (map (\<lambda>r. if a = r then c else {#}) [0..<W]) = (if a < W then c else {#})"
  by (induction W) auto

lemma mset_classes:
  assumes "\<forall>x\<in>set xs. k x < W"
  shows "mset (concat (map (\<lambda>r. filter (\<lambda>x. k x = r) xs) [0..<W])) = mset xs"
  using assms
proof (induction xs)
  case Nil
  then show ?case by (simp add: mset_concat comp_def)
next
  case (Cons x xs)
  then have kx: "k x < W" and IH: "mset (concat (map (\<lambda>r. filter (\<lambda>x. k x = r) xs) [0..<W])) = mset xs"
    by simp_all
  have step: "mset (filter (\<lambda>y. k y = r) (x # xs)) =
      (if k x = r then {#x#} else {#}) + mset (filter (\<lambda>y. k y = r) xs)" for r
    by simp
  have "mset (concat (map (\<lambda>r. filter (\<lambda>y. k y = r) (x # xs)) [0..<W])) =
      sum_list (map (\<lambda>r. mset (filter (\<lambda>y. k y = r) (x # xs))) [0..<W])"
    by (simp add: mset_concat comp_def del: filter.simps mset_filter)
  also have "\<dots> =
      sum_list (map (\<lambda>r. (if k x = r then {#x#} else {#}) + mset (filter (\<lambda>y. k y = r) xs)) [0..<W])"
    by (simp only: step)
  also have "\<dots> = sum_list (map (\<lambda>r. if k x = r then {#x#} else {#}) [0..<W]) +
      sum_list (map (\<lambda>r. mset (filter (\<lambda>x. k x = r) xs)) [0..<W])"
    by (rule sum_list_addf)
  also have "sum_list (map (\<lambda>r. mset (filter (\<lambda>y. k y = r) xs)) [0..<W]) = mset xs"
    using IH by (simp add: mset_concat comp_def)
  finally show ?case
    using kx by (simp add: sum_list_indicator)
qed

lemma sort_kept_indices:
  assumes "0 < W"
  shows "sort (concat (map (\<lambda>r. [i \<leftarrow> assigned n W r. K i]) [0..<W])) = [i \<leftarrow> [0..<n]. K i]"
proof (rule properties_for_sort)
  have "[i \<leftarrow> assigned n W r. K i] = [i \<leftarrow> [i \<leftarrow> [0..<n]. K i]. i mod W = r]" for r
    by (simp add: assigned_def conj_commute)
  then have "mset (concat (map (\<lambda>r. [i \<leftarrow> assigned n W r. K i]) [0..<W])) =
      mset (concat (map (\<lambda>r. [i \<leftarrow> [i \<leftarrow> [0..<n]. K i]. i mod W = r]) [0..<W]))"
    by simp
  also have "\<dots> = mset [i \<leftarrow> [0..<n]. K i]"
    using assms by (intro mset_classes) simp
  finally show "mset [i \<leftarrow> [0..<n]. K i] =
      mset (concat (map (\<lambda>r. [i \<leftarrow> assigned n W r. K i]) [0..<W]))"
    by simp
  show "sorted [i \<leftarrow> [0..<n]. K i]"
    by (simp add: sorted_wrt_filter)
qed

lemma index_filter:
  "map (\<lambda>i. f (xs ! i)) [i \<leftarrow> [0..<length xs]. P (xs ! i)] = map f (filter P xs)"
proof -
  have "filter P xs = filter P (map (\<lambda>i. xs ! i) [0..<length xs])"
    by (simp only: map_nth)
  also have "\<dots> = map (\<lambda>i. xs ! i) [i \<leftarrow> [0..<length xs]. P (xs ! i)]"
    by (simp add: filter_map comp_def)
  finally show ?thesis by (simp add: comp_def)
qed

lemma doc_counts_wellformed:
  "distinct (map fst (doc_counts fs p))
   \<and> (\<forall>k\<in>fst ` set (doc_counts fs p). k \<noteq> [] \<and> newline \<notin> set k)"
  using token_shape(1) token_no_newline
  by (auto simp: doc_counts_def distinct_count_tokens keys_count_tokens)

lemma build_vocabulary_set_cong:
  "set docs = set docs' \<Longrightarrow> build_vocabulary docs = build_vocabulary docs'"
  by (intro build_vocabulary_unique)
     (simp_all add: sorted_build_vocabulary distinct_build_vocabulary set_build_vocabulary)

lemma run_parallel_eq:
  assumes W: "0 < W" and ne: "paths \<noteq> []"
  shows "run_parallel W fs paths = Some
    (if int_sized fs paths W
     then Inr
      \<lparr>par_collectives =
         [MPI_Gather, MPI_Gatherv, MPI_Bcast, MPI_Bcast, MPI_Gather, MPI_Gatherv, MPI_Gatherv,
          MPI_Barrier, MPI_Reduce],
       par_vocabulary =
         replicate W (build_vocabulary (map (doc_counts fs) (filter (kept fs) paths))),
       par_stderr =
         (if filter (kept fs) paths \<noteq> []
          then map (\<lambda>r. concat (map (\<lambda>i. snd (read_file fs (paths ! i)))
                 (assigned (length paths) W r))) [0..<W]
          else (map (\<lambda>r. concat (map (\<lambda>i. snd (read_file fs (paths ! i)))
                    (assigned (length paths) W r))) [0..<W])
               [0 := concat (map (\<lambda>i. snd (read_file fs (paths ! i)))
                       (assigned (length paths) W 0))
                     @ [No_Rows_Generated]]),
       par_written =
         (if filter (kept fs) paths \<noteq> []
          then Some
            \<lparr>csv_vocabulary = build_vocabulary (map (doc_counts fs) (filter (kept fs) paths)),
             csv_doc_names = map filename (filter (kept fs) paths),
             csv_matrix = build_matrix (map (doc_counts fs) (filter (kept fs) paths))
               (build_vocabulary (map (doc_counts fs) (filter (kept fs) paths)))\<rparr>
          else None)\<rparr>
     else Inl Int_Out_Of_Range)"
proof -
  define D where "D = (\<lambda>i. doc_counts fs (paths ! i))"
  define K where "K = (\<lambda>i. kept fs (paths ! i))"
  define E where "E = (\<lambda>r. concat (map (\<lambda>i. snd (read_file fs (paths ! i)))
    (assigned (length paths) W r)))"
  define locals where "locals = map (\<lambda>r.
       (rank_counts fs paths W r, [i \<leftarrow> assigned (length paths) W r. K i], E r)) [0..<W]"
  define V where "V = build_vocabulary (map (doc_counts fs) (filter (kept fs) paths))"
  have run: "run_parallel W fs paths =
      Some (if list_all (\<lambda>i. i \<le> int_max) (kept_indices fs paths)
            then collective_phases paths locals else Inl Int_Out_Of_Range)"
    using ne unfolding run_parallel_def local_phase [OF W] locals_def K_def E_def
    by simp
  have lne: "locals \<noteq> []" and llen: "length locals = W"
    using W by (simp_all add: locals_def)
  have shape: "\<forall>l\<in>set locals. fst l = map D (fst (snd l))"
    by (auto simp: locals_def rank_counts_def D_def K_def)
  have wfD: "\<forall>i. distinct (map fst (D i)) \<and> (\<forall>k\<in>fst ` set (D i). k \<noteq> [] \<and> newline \<notin> set k)"
    unfolding D_def using doc_counts_wellformed by blast
  have idxs: "concat (map (fst \<circ> snd) locals) =
      concat (map (\<lambda>r. [i \<leftarrow> assigned (length paths) W r. K i]) [0..<W])"
    by (simp add: locals_def comp_def)
  have sorted_idxs: "sort (concat (map (fst \<circ> snd) locals)) = [i \<leftarrow> [0..<length paths]. K i]"
    unfolding idxs by (rule sort_kept_indices [OF W])
  have ki: "[i \<leftarrow> [0..<length paths]. K i] = kept_indices fs paths"
    by (simp add: kept_indices_def K_def)
  have rows_n: "length (concat (map (fst \<circ> snd) locals)) = length (kept_indices fs paths)"
    using arg_cong [OF sorted_idxs, of length] by (simp only: length_sort ki)
  have errs: "map (snd \<circ> snd) locals = map E [0..<W]"
    by (simp add: locals_def comp_def)
  have hd_errs: "hd (map E [0..<W]) = E 0"
    using W by (simp add: hd_map upt_conv_Cons)
  have names: "map (\<lambda>i. filename (paths ! i)) [i \<leftarrow> [0..<length paths]. K i] =
      map filename (filter (kept fs) paths)"
    unfolding K_def by (rule index_filter)
  have docs: "map D [i \<leftarrow> [0..<length paths]. K i] = map (doc_counts fs) (filter (kept fs) paths)"
    unfolding K_def D_def by (rule index_filter)
  have "set (concat (map (fst \<circ> snd) locals)) = set (sort (concat (map (fst \<circ> snd) locals)))"
    by simp
  then have "set (map D (concat (map (fst \<circ> snd) locals))) =
      set (map (doc_counts fs) (filter (kept fs) paths))"
    unfolding sorted_idxs docs [symmetric] by simp
  then have G: "build_vocabulary (map D (concat (map (fst \<circ> snd) locals))) = V"
    unfolding V_def by (rule build_vocabulary_set_cong)
  have rows: "map (\<lambda>i. map (count_of (D i)) V) [i \<leftarrow> [0..<length paths]. K i] =
      build_matrix (map (doc_counts fs) (filter (kept fs) paths)) V"
    unfolding build_matrix_def docs [symmetric] by (simp add: comp_def)
  have empty: "(concat (map (fst \<circ> snd) locals) \<noteq> []) = (filter (kept fs) paths \<noteq> [])"
  proof -
    have "(concat (map (fst \<circ> snd) locals) = []) = (sort (concat (map (fst \<circ> snd) locals)) = [])"
      by (metis length_0_conv length_sort)
    also have "\<dots> = (map D [i \<leftarrow> [0..<length paths]. K i] = [])"
      unfolding sorted_idxs by simp
    also have "\<dots> = (filter (kept fs) paths = [])"
      unfolding docs by simp
    finally show ?thesis by simp
  qed
  have bytes: "sum_list (map (\<lambda>l. length (join_words_with_newline (local_vocab (fst l)))) locals) =
      gathered_vocabulary_bytes fs paths W"
    by (simp add: locals_def gathered_vocabulary_bytes_def comp_def)
  have cells: "length (kept_indices fs paths) * length V = matrix_cells fs paths"
    by (simp add: matrix_cells_def V_def)
  have phases: "collective_phases paths locals =
    (if gathered_vocabulary_bytes fs paths W \<le> int_max
        \<and> length (kept_indices fs paths) \<le> int_max \<and> matrix_cells fs paths \<le> int_max
     then Inr
      \<lparr>par_collectives =
         [MPI_Gather, MPI_Gatherv, MPI_Bcast, MPI_Bcast, MPI_Gather, MPI_Gatherv, MPI_Gatherv,
          MPI_Barrier, MPI_Reduce],
       par_vocabulary = replicate W V,
       par_stderr =
         (if filter (kept fs) paths \<noteq> [] then map E [0..<W]
          else (map E [0..<W])[0 := E 0 @ [No_Rows_Generated]]),
       par_written =
         (if filter (kept fs) paths \<noteq> []
          then Some \<lparr>csv_vocabulary = V,
                 csv_doc_names = map filename (filter (kept fs) paths),
                 csv_matrix = build_matrix (map (doc_counts fs) (filter (kept fs) paths)) V\<rparr>
          else None)\<rparr>
     else Inl Int_Out_Of_Range)"
    unfolding collective_phases_eq [OF lne shape wfD] G sorted_idxs names rows empty errs
      hd_errs llen bytes rows_n cells ..
  show ?thesis
    unfolding run phases int_sized_def
    unfolding V_def E_def by simp
qed

section \<open>Claims about the two runs\<close>

lemma run_parallel_Nil:
  "run_parallel W fs [] =
     Some (Inr \<lparr>par_collectives = [], par_vocabulary = [], par_stderr = [],
                  par_written = None\<rparr>)"
  by (simp add: run_parallel_def)

lemma local_vocab_Nil: "local_vocab [] = []"
  by (simp add: local_vocab_def)

lemma int_sized_none:
  assumes "filter (kept fs) paths = []"
  shows "int_sized fs paths W"
proof -
  from assms have none: "\<forall>p\<in>set paths. \<not> kept fs p"
    by (simp add: filter_empty_conv)
  then have ki: "kept_indices fs paths = []"
    by (simp add: kept_indices_def filter_empty_conv)
  have "[i \<leftarrow> assigned (length paths) W r. kept fs (paths ! i)] = []" for r
    using none by (auto simp: filter_empty_conv set_assigned)
  then have "rank_counts fs paths W r = []" for r
    by (simp add: rank_counts_def)
  then have "gathered_vocabulary_bytes fs paths W = 0"
    by (simp add: gathered_vocabulary_bytes_def local_vocab_Nil join_words_Nil)
  with ki show ?thesis
    by (simp add: int_sized_def matrix_cells_def)
qed







section \<open>The synchronized vocabulary\<close>









text \<open>
  Claim C5, as amended. For the corpus \<open>["the cat sat", "the dog ran"]\<close> and two workers,
  rank 0 processes document 0 and rank 1 document 1, every rank ends with the
  vocabulary \<open>[cat, dog, ran, sat, the]\<close>, and the rows written are \<open>[1,0,0,1,1]\<close> for
  document 0 and \<open>[0,1,1,0,1]\<close> for document 1, in the order of the documents.
\<close>

theorem two_documents_two_workers:
  "local_documents [''doc0.txt'' \<mapsto> ''the cat sat'', ''doc1.txt'' \<mapsto> ''the dog ran'']
     [''doc0.txt'', ''doc1.txt''] 2 0 =
     Some (Inr ([[(''cat'', 1), (''sat'', 1), (''the'', 1)]], [0], []))
   \<and> local_documents [''doc0.txt'' \<mapsto> ''the cat sat'', ''doc1.txt'' \<mapsto> ''the dog ran'']
     [''doc0.txt'', ''doc1.txt''] 2 1 =
     Some (Inr ([[(''dog'', 1), (''ran'', 1), (''the'', 1)]], [1], []))
   \<and> run_parallel 2 [''doc0.txt'' \<mapsto> ''the cat sat'', ''doc1.txt'' \<mapsto> ''the dog ran'']
     [''doc0.txt'', ''doc1.txt''] =
     Some (Inr \<lparr>par_collectives =
         [MPI_Gather, MPI_Gatherv, MPI_Bcast, MPI_Bcast, MPI_Gather, MPI_Gatherv, MPI_Gatherv,
          MPI_Barrier, MPI_Reduce],
       par_vocabulary =
         [[''cat'', ''dog'', ''ran'', ''sat'', ''the''], [''cat'', ''dog'', ''ran'', ''sat'', ''the'']],
       par_stderr = [[], []],
       par_written =
         Some \<lparr>csv_vocabulary = [''cat'', ''dog'', ''ran'', ''sat'', ''the''],
                csv_doc_names = [''doc0.txt'', ''doc1.txt''],
                csv_matrix = [[1, 0, 0, 1, 1], [0, 1, 1, 0, 1]]\<rparr>\<rparr>)"
  by code_simp

text \<open>
  Claim C5 as stated fails: the matrix of that run is not
  \<open>[[0,0,0,1,1], [1,1,1,0,1]]\<close>; document 0 holds "cat" and document 1 does not.
\<close>

theorem two_documents_rows_counterexample:
  "(case run_parallel 2 [''doc0.txt'' \<mapsto> ''the cat sat'', ''doc1.txt'' \<mapsto> ''the dog ran''] [''doc0.txt'', ''doc1.txt''] of
      Some (Inr out) \<Rightarrow> map_option csv_matrix (par_written out)
    | _ \<Rightarrow> None)
   \<noteq> Some [[0, 0, 0, 1, 1], [1, 1, 1, 0, 1]]"
proof -
  have "(case run_parallel 2 [''doc0.txt'' \<mapsto> ''the cat sat'', ''doc1.txt'' \<mapsto> ''the dog ran''] [''doc0.txt'', ''doc1.txt''] of
      Some (Inr out) \<Rightarrow> map_option csv_matrix (par_written out)
    | _ \<Rightarrow> None) = Some [[1, 0, 0, 1, 1], [0, 1, 1, 0, 1]]" (is "?m = _")
    by code_simp
  then have "?m \<noteq> Some [[0, 0, 0, 1, 1], [1, 1, 1, 0, 1]]"
    by (simp only:) simp
  then show ?thesis .
qed

section \<open>Documents without terms, runs without documents\<close>

lemma maximal_runs_none: "\<forall>x\<in>set xs. \<not> P x \<Longrightarrow> maximal_runs P xs = []"
  by (induction xs) simp_all

lemma tokenize_no_terms:
  "\<forall>b\<in>set c. \<not> term_forming b \<Longrightarrow> tokenize_document c = []"
  by (simp add: tokenize_document_runs maximal_runs_none)

lemma filter_position:
  assumes "i < length xs" and "P (xs ! i)"
  shows "length (filter P (take i xs)) < length (filter P xs)
         \<and> filter P xs ! length (filter P (take i xs)) = xs ! i"
proof -
  have "xs = take i xs @ xs ! i # drop (Suc i) xs"
    using assms(1) by (rule id_take_nth_drop)
  then have "filter P xs = filter P (take i xs) @ xs ! i # filter P (drop (Suc i) xs)"
    using assms(2) by (metis filter.simps(2) filter_append)
  then show ?thesis by (simp add: nth_append)
qed

text \<open>
  Claim C6, as amended. A document whose content is not empty and holds no term-forming
  byte gives no token and a count table without entries; the baseline writes a row for
  it, at the position of the document among the documents kept, and that row is 0 in
  every column of the vocabulary (of length 0 when the vocabulary is empty). The matrix
  has one row for each document with non-empty content and none for the others. The
  distributed run writes the same table when the sizes it holds in \<^verbatim>\<open>int\<close>s are in
  range.
\<close>

theorem document_without_terms:
  assumes "1 \<le> W" and "i < length document_paths"
    and "bytes_of fs (document_paths ! i) \<noteq> []"
    and "\<forall>b\<in>set (bytes_of fs (document_paths ! i)). \<not> term_forming b"
  shows "tokenize_document (bytes_of fs (document_paths ! i)) = []
    \<and> count_tokens (tokenize_document (bytes_of fs (document_paths ! i))) = []
    \<and> (\<exists>table.
          ser_written (run_serial fs document_paths) = Some table
          \<and> (int_sized fs document_paths W \<longrightarrow>
                (\<exists>out. run_parallel W fs document_paths = Some (Inr out)
                   \<and> par_written out = Some table))
          \<and> length (csv_matrix table) = length (filter (kept fs) document_paths)
          \<and> length (filter (kept fs) (take i document_paths)) < length (csv_matrix table)
          \<and> csv_doc_names table ! length (filter (kept fs) (take i document_paths)) =
              filename (document_paths ! i)
          \<and> csv_matrix table ! length (filter (kept fs) (take i document_paths)) =
              replicate (length (csv_vocabulary table)) 0)"
proof -
  let ?k = "length (filter (kept fs) (take i document_paths))"
  let ?docs = "map (doc_counts fs) (filter (kept fs) document_paths)"
  from assms(1) have W: "0 < W" by simp
  from assms(2) have ne: "document_paths \<noteq> []" by auto
  have tok: "tokenize_document (bytes_of fs (document_paths ! i)) = []"
    using assms(4) by (rule tokenize_no_terms)
  then have cnt: "doc_counts fs (document_paths ! i) = []"
    by (simp add: doc_counts_def count_tokens_def)
  from assms(3) have kept: "kept fs (document_paths ! i)"
    by (simp add: kept_def)
  from filter_position [OF assms(2), of "kept fs", OF kept]
  have k: "?k < length (filter (kept fs) document_paths)"
    and at: "filter (kept fs) document_paths ! ?k = document_paths ! i"
    by simp_all
  from k have some: "filter (kept fs) document_paths \<noteq> []" by auto
  have zeros: "map (count_of []) V = replicate (length V) 0" for V
    by (induction V) (simp_all add: count_of_def)
  have row: "build_matrix ?docs (build_vocabulary ?docs) ! ?k =
      replicate (length (build_vocabulary ?docs)) 0"
    using k by (simp add: build_matrix_def at cnt zeros)
  have name: "map filename (filter (kept fs) document_paths) ! ?k = filename (document_paths ! i)"
    using k by (simp add: at)
  have len: "length (build_matrix ?docs (build_vocabulary ?docs)) =
      length (filter (kept fs) document_paths)"
    by (simp add: build_matrix_def)
  from tok cnt [unfolded doc_counts_def] row name len k some ne show ?thesis
    by (simp add: run_serial_eq run_parallel_eq [OF W ne])
qed

theorem document_without_terms_witness:
  "tokenize_document (bytes_of [''d0'' \<mapsto> ''a b'', ''d1'' \<mapsto> ''--''] ''d1'') = []
   \<and> int_sized [''d0'' \<mapsto> ''a b'', ''d1'' \<mapsto> ''--''] [''d0'', ''d1''] 2
   \<and> (\<exists>table out.
         ser_written (run_serial [''d0'' \<mapsto> ''a b'', ''d1'' \<mapsto> ''--''] [''d0'', ''d1'']) = Some table
         \<and> run_parallel 2 [''d0'' \<mapsto> ''a b'', ''d1'' \<mapsto> ''--''] [''d0'', ''d1''] = Some (Inr out)
         \<and> par_written out = Some table
         \<and> csv_vocabulary table = [''a'', ''b'']
         \<and> csv_doc_names table ! 1 = ''d1''
         \<and> csv_matrix table ! 1 = [0, 0])"
proof -
  have s: "ser_written (run_serial [''d0'' \<mapsto> ''a b'', ''d1'' \<mapsto> ''--''] [''d0'', ''d1'']) =
      Some \<lparr>csv_vocabulary = [''a'', ''b''], csv_doc_names = [''d0'', ''d1''],
             csv_matrix = [[1, 1], [0, 0]]\<rparr>"
    by code_simp
  have b: "bytes_of [''d0'' \<mapsto> ''a b'', ''d1'' \<mapsto> ''--''] ''d1'' = ''--''"
    by code_simp
  have h1: "(1::nat) \<le> 2" and h2: "1 < length [''d0'', ''d1'']" by simp_all
  have h3: "bytes_of [''d0'' \<mapsto> ''a b'', ''d1'' \<mapsto> ''--''] ([''d0'', ''d1''] ! 1) \<noteq> []"
    by (simp add: b)
  have "\<not> term_forming (CHR ''-'')" by code_simp
  then have h4: "\<forall>b\<in>set (bytes_of [''d0'' \<mapsto> ''a b'', ''d1'' \<mapsto> ''--''] ([''d0'', ''d1''] ! 1)).
      \<not> term_forming b"
    by (simp add: b)
  have h5: "int_sized [''d0'' \<mapsto> ''a b'', ''d1'' \<mapsto> ''--''] [''d0'', ''d1''] 2"
    by code_simp
  from document_without_terms [OF h1 h2 h3 h4] h5 show ?thesis
    unfolding s by auto
qed

text \<open>
  Claim C6 as stated fails for a document with no byte at all: both loops skip it, as
  they skip an unreadable one. With the files \<open>d0\<close> (empty) and \<open>d1\<close> (\<open>"a"\<close>) the
  vocabulary is not empty, and the table has the one row of \<open>d1\<close> and no row of zeros
  for \<open>d0\<close>.
\<close>

theorem empty_document_counterexample:
  "bytes_of [''d0'' \<mapsto> [], ''d1'' \<mapsto> ''a''] ''d0'' = []
   \<and> ser_written (run_serial [''d0'' \<mapsto> [], ''d1'' \<mapsto> ''a''] [''d0'', ''d1'']) =
       Some \<lparr>csv_vocabulary = [''a''], csv_doc_names = [''d1''], csv_matrix = [[1]]\<rparr>
   \<and> (case run_parallel 2 [''d0'' \<mapsto> [], ''d1'' \<mapsto> ''a''] [''d0'', ''d1''] of
         Some (Inr out) \<Rightarrow> par_written out
       | _ \<Rightarrow> None) =
       Some \<lparr>csv_vocabulary = [''a''], csv_doc_names = [''d1''], csv_matrix = [[1]]\<rparr>"
  by code_simp

text \<open>
  Claim C7, as amended. When the list of paths is empty, the baseline reports it, the
  distributed run returns at once without a collective operation, and neither writes a
  file. When the list is not empty and no document has content, the baseline reports
  that no document was valid and writes nothing; the distributed run goes through every
  collective operation, then rank 0 reports that no row was generated, and no file is
  written.
\<close>

theorem run_without_documents:
  assumes "1 \<le> W" and "\<forall>p\<in>set document_paths. bytes_of fs p = []"
  shows "ser_written (run_serial fs document_paths) = None
    \<and> (document_paths = [] \<longrightarrow>
          ser_stderr (run_serial fs document_paths) = [No_Documents]
          \<and> run_parallel W fs document_paths =
              Some (Inr \<lparr>par_collectives = [], par_vocabulary = [], par_stderr = [],
                           par_written = None\<rparr>))
    \<and> (document_paths \<noteq> [] \<longrightarrow>
          last (ser_stderr (run_serial fs document_paths)) = No_Valid_Document
          \<and> (\<exists>out. run_parallel W fs document_paths = Some (Inr out)
                \<and> par_collectives out =
                    [MPI_Gather, MPI_Gatherv, MPI_Bcast, MPI_Bcast, MPI_Gather, MPI_Gatherv,
                     MPI_Gatherv, MPI_Barrier, MPI_Reduce]
                \<and> par_written out = None
                \<and> last (par_stderr out ! 0) = No_Rows_Generated))"
proof -
  from assms(1) have W: "0 < W" by simp
  from assms(2) have none: "filter (kept fs) document_paths = []"
    by (simp add: kept_def filter_empty_conv)
  then have sized: "int_sized fs document_paths W"
    by (rule int_sized_none)
  show ?thesis
  proof (cases "document_paths = []")
    case True
    then show ?thesis
      by (simp add: run_serial_eq run_parallel_Nil)
  next
    case False
    with none W sized show ?thesis
      by (simp add: run_serial_eq run_parallel_eq [OF W False])
  qed
qed

theorem run_without_documents_witness:
  "ser_written (run_serial Map.empty [''missing'']) = None
   \<and> last (ser_stderr (run_serial Map.empty [''missing''])) = No_Valid_Document
   \<and> (\<exists>out. run_parallel 2 Map.empty [''missing''] = Some (Inr out)
         \<and> par_collectives out =
             [MPI_Gather, MPI_Gatherv, MPI_Bcast, MPI_Bcast, MPI_Gather, MPI_Gatherv,
              MPI_Gatherv, MPI_Barrier, MPI_Reduce]
         \<and> par_written out = None
         \<and> last (par_stderr out ! 0) = No_Rows_Generated)"
proof -
  have h1: "(1::nat) \<le> 2" by simp
  have h2: "\<forall>p\<in>set [''missing'']. bytes_of Map.empty p = []"
    by (simp add: bytes_of_def read_file_def)
  from run_without_documents [OF h1 h2] show ?thesis
    by simp
qed

text \<open>
  Claim C7 as stated fails for the distributed run when the list of paths is not empty
  and no document is readable: with one worker and one missing file the run performs
  all nine collective operations before it reports the empty result.
\<close>

theorem synchronization_entered_counterexample:
  "run_parallel 1 Map.empty [''missing''] =
     Some (Inr \<lparr>par_collectives =
         [MPI_Gather, MPI_Gatherv, MPI_Bcast, MPI_Bcast, MPI_Gather, MPI_Gatherv, MPI_Gatherv,
          MPI_Barrier, MPI_Reduce],
       par_vocabulary = [[]],
       par_stderr = [[Cannot_Open_File ''missing'', No_Rows_Generated]],
       par_written = None\<rparr>)
   \<and> (case run_parallel 1 Map.empty [''missing''] of
         Some (Inr out) \<Rightarrow> par_collectives out
       | _ \<Rightarrow> []) \<noteq> []"
proof -
  have e: "run_parallel 1 Map.empty [''missing''] =
     Some (Inr \<lparr>par_collectives =
         [MPI_Gather, MPI_Gatherv, MPI_Bcast, MPI_Bcast, MPI_Gather, MPI_Gatherv, MPI_Gatherv,
          MPI_Barrier, MPI_Reduce],
       par_vocabulary = [[]],
       par_stderr = [[Cannot_Open_File ''missing'', No_Rows_Generated]],
       par_written = None\<rparr>)"
    by code_simp
  show ?thesis
    unfolding e by simp
qed

section \<open>The written file\<close>

lemma write_csv_lines:
  "write_csv M V N =
     concat (map (\<lambda>l. l @ [newline])
       ((''document'' @ concat (map ((#) (CHR '','')) V)) #
        map (\<lambda>i. N ! i @ concat (map ((#) (CHR '','')) (map show_int (M ! i)))) [0..<length M]))"
  unfolding write_csv_def Let_def
  by (simp add: fold_append_concat comp_def)

lemma split_at_cell: "sep \<notin> set x \<Longrightarrow> split_at sep (x @ sep # ys) = x # split_at sep ys"
  by (induction x) auto

lemma split_at_last: "sep \<notin> set x \<Longrightarrow> split_at sep x = [x]"
  by (induction x) auto

lemma split_at_cells:
  assumes "sep \<notin> set x" and "\<forall>c\<in>set cells. sep \<notin> set c"
  shows "split_at sep (x @ concat (map ((#) sep) cells)) = x # cells"
  using assms
proof (induction cells arbitrary: x)
  case Nil
  then show ?case by (simp add: split_at_last)
next
  case (Cons c cells)
  then have "split_at sep (c @ concat (map ((#) sep) cells)) = c # cells"
    by simp
  with Cons.prems(1) show ?case
    by (simp add: split_at_cell)
qed

lemma split_at_lines:
  assumes "\<forall>l\<in>set ls. sep \<notin> set l"
  shows "split_at sep (concat (map (\<lambda>l. l @ [sep]) ls)) = ls @ [[]]"
  using assms by (induction ls) (simp_all add: split_at_cell)

lemma decimal_digits_range:
  "\<forall>c\<in>set (decimal_digits n). 48 \<le> (of_char c :: nat) \<and> (of_char c :: nat) \<le> 57"
proof (induction n rule: decimal_digits.induct)
  case (1 n)
  show ?case
  proof (cases "n < 10")
    case True
    then show ?thesis
      by (subst decimal_digits.simps) simp
  next
    case False
    have "n mod 10 < 10" by simp
    with False 1 show ?thesis
      by (subst decimal_digits.simps) (simp add: ball_Un)
  qed
qed

lemma read_nat_snoc: "read_nat (ds @ [c]) = 10 * read_nat ds + (of_char c - 48)"
  by (simp add: read_nat_def)

lemma read_decimal_digits: "read_nat (decimal_digits n) = n"
proof (induction n rule: decimal_digits.induct)
  case (1 n)
  show ?case
  proof (cases "n < 10")
    case True
    then show ?thesis
      by (subst decimal_digits.simps) (simp add: read_nat_def)
  next
    case False
    have "n mod 10 < 10" by simp
    then have "(of_char (char_of (48 + n mod 10)) :: nat) - 48 = n mod 10"
      by simp
    with False 1 show ?thesis
      by (subst decimal_digits.simps) (simp add: read_nat_snoc)
  qed
qed

lemma decimal_digits_first:
  "decimal_digits n \<noteq> [] \<and> hd (decimal_digits n) \<noteq> CHR ''-''"
proof -
  have ne: "decimal_digits n \<noteq> []"
    by (subst decimal_digits.simps) simp
  then have "hd (decimal_digits n) \<in> set (decimal_digits n)" by simp
  with decimal_digits_range have "48 \<le> (of_char (hd (decimal_digits n)) :: nat)" by blast
  then have "hd (decimal_digits n) \<noteq> CHR ''-''" by auto
  with ne show ?thesis by simp
qed

lemma read_show_int: "read_int (show_int v) = v"
proof (cases "v < 0")
  case True
  then show ?thesis
    by (simp add: read_int_def show_int_def read_decimal_digits)
next
  case False
  obtain c cs where d: "decimal_digits (nat v) = c # cs" and c: "c \<noteq> CHR ''-''"
    using decimal_digits_first [of "nat v"] by (cases "decimal_digits (nat v)") auto
  have "read_nat (c # cs) = nat v"
    using read_decimal_digits [of "nat v"] by (simp only: d)
  with False c show ?thesis
    by (simp add: read_int_def show_int_def d)
qed

lemma show_int_chars:
  "CHR '','' \<notin> set (show_int v) \<and> newline \<notin> set (show_int v)"
proof -
  have "CHR '','' \<notin> set (decimal_digits n) \<and> newline \<notin> set (decimal_digits n)" for n
    using decimal_digits_range [of n] by (auto simp: newline_def)
  then show ?thesis
    by (simp add: show_int_def newline_def)
qed

text \<open>A table whose terms and names hold neither a comma nor a newline is read back from
  the bytes written.\<close>

lemma read_write_csv:
  assumes V: "\<forall>w\<in>set V. CHR '','' \<notin> set w \<and> newline \<notin> set w"
    and N: "\<forall>n\<in>set N. CHR '','' \<notin> set n \<and> newline \<notin> set n"
    and len: "length N = length M"
  shows "read_csv (write_csv M V N) =
     \<lparr>csv_vocabulary = V, csv_doc_names = N, csv_matrix = M\<rparr>"
    and "map (split_at (CHR '','')) (csv_lines (write_csv M V N)) =
     (''document'' # V) # map (\<lambda>(name, row). name # map show_int row) (zip N M)"
proof -
  define header where "header = ''document'' @ concat (map ((#) (CHR '','')) V)"
  define line where
    "line = (\<lambda>i. N ! i @ concat (map ((#) (CHR '','')) (map show_int (M ! i))))"
  have doc: "CHR '','' \<notin> set ''document''" "newline \<notin> set ''document''"
    by (simp_all add: newline_def)
  have cn: "CHR '','' \<noteq> newline" by (simp add: newline_def)
  have written: "write_csv M V N = concat (map (\<lambda>l. l @ [newline]) (header # map line [0..<length M]))"
    unfolding write_csv_lines header_def line_def ..
  have name: "CHR '','' \<notin> set (N ! i) \<and> newline \<notin> set (N ! i)" if "i < length M" for i
    using N that len by simp
  have "newline \<notin> set header"
    using V doc(2) cn by (auto simp: header_def)
  moreover have "newline \<notin> set (line i)" if "i < length M" for i
    using name [OF that] show_int_chars cn by (auto simp: line_def)
  ultimately have "\<forall>l\<in>set (header # map line [0..<length M]). newline \<notin> set l"
    by auto
  then have lines: "csv_lines (write_csv M V N) = header # map line [0..<length M]"
    unfolding written csv_lines_def by (simp only: split_at_lines butlast_snoc)
  have h: "split_at (CHR '','') header = ''document'' # V"
    unfolding header_def using doc(1) V by (intro split_at_cells) simp_all
  have l: "split_at (CHR '','') (line i) = N ! i # map show_int (M ! i)" if "i < length M" for i
    unfolding line_def using name [OF that] show_int_chars
    by (intro split_at_cells) simp_all
  have rows: "map (split_at (CHR '','')) (map line [0..<length M]) =
      map (\<lambda>i. N ! i # map show_int (M ! i)) [0..<length M]"
    using l by simp
  have names: "map (\<lambda>i. N ! i) [0..<length M] = N"
    unfolding len [symmetric] by (rule map_nth)
  have vals: "map (\<lambda>i. map read_int (map show_int (M ! i))) [0..<length M] = M"
  proof -
    have "map read_int (map show_int vs) = vs" for vs
      by (induction vs) (simp_all add: read_show_int)
    then show ?thesis
      by (simp add: map_nth)
  qed
  have "map (\<lambda>i. hd (split_at (CHR '','') (line i))) [0..<length M] =
      map (\<lambda>i. N ! i) [0..<length M]"
    by (rule map_cong) (simp_all add: l)
  then have names': "map (\<lambda>i. hd (split_at (CHR '','') (line i))) [0..<length M] = N"
    by (simp only: names)
  have "map (\<lambda>i. map read_int (tl (split_at (CHR '','') (line i)))) [0..<length M] =
      map (\<lambda>i. map read_int (map show_int (M ! i))) [0..<length M]"
    by (rule map_cong) (simp_all add: l)
  then have vals': "map (\<lambda>i. map read_int (tl (split_at (CHR '','') (line i)))) [0..<length M] = M"
    by (simp only: vals)
  show "read_csv (write_csv M V N) =
     \<lparr>csv_vocabulary = V, csv_doc_names = N, csv_matrix = M\<rparr>"
    unfolding read_csv_def lines Let_def
    by (simp add: h comp_def names' vals')
  have "map (\<lambda>i. N ! i # map show_int (M ! i)) [0..<length M] =
      map (\<lambda>(name, row). name # map show_int row) (zip N M)"
    by (rule nth_equalityI) (simp_all add: len)
  then show "map (split_at (CHR '','')) (csv_lines (write_csv M V N)) =
     (''document'' # V) # map (\<lambda>(name, row). name # map show_int row) (zip N M)"
    unfolding lines list.map h rows by (simp only:)
qed

text \<open>
  Claim C9, as amended. Every token the tokenizer produces is non-empty and consists of
  lowercase letters, digits and underscores only; so it holds neither a newline nor a
  comma, and a list of tokens joined with newlines splits back into the same list. The
  header of the output file is cut at its commas into \<^verbatim>\<open>document\<close> and the terms. A data
  row begins with the name of the document, which is written as it is: when no name
  holds a comma or a newline, the file read back by rows and cells gives the vocabulary,
  the names and the matrix that were written, and every value is read back from its
  decimal digits.
\<close>

theorem tokens_wellformed:
  assumes "\<forall>w\<in>set vocabulary. \<exists>content. w \<in> set (tokenize_document content)"
    and "\<forall>name\<in>set doc_names. CHR '','' \<notin> set name \<and> newline \<notin> set name"
    and "length doc_names = length matrix"
  shows "(\<forall>w\<in>set vocabulary. w \<noteq> [] \<and> (\<forall>c\<in>set w. lower_alnum c \<or> c = CHR ''_'')
            \<and> newline \<notin> set w \<and> CHR '','' \<notin> set w)
         \<and> split_by_newline (join_words_with_newline vocabulary) = vocabulary
         \<and> map (split_at (CHR '','')) (csv_lines (write_csv matrix vocabulary doc_names)) =
             (''document'' # vocabulary) #
             map (\<lambda>(name, row). name # map show_int row) (zip doc_names matrix)
         \<and> read_csv (write_csv matrix vocabulary doc_names) =
             \<lparr>csv_vocabulary = vocabulary, csv_doc_names = doc_names, csv_matrix = matrix\<rparr>
         \<and> (\<forall>v. read_int (show_int v) = v)"
proof -
  have shape: "w \<noteq> [] \<and> (\<forall>c\<in>set w. lower_alnum c \<or> c = CHR ''_'')
      \<and> newline \<notin> set w \<and> CHR '','' \<notin> set w" if "w \<in> set vocabulary" for w
  proof -
    from assms(1) that obtain content where w: "w \<in> set (tokenize_document content)" by blast
    have chars: "\<forall>c\<in>set w. lower_alnum c \<or> c = CHR ''_''"
      using token_shape(2) [OF w] .
    have "CHR '','' \<notin> set w"
    proof
      assume "CHR '','' \<in> set w"
      with chars have "lower_alnum (CHR '','') \<or> CHR '','' = CHR ''_''" by blast
      then show False by (simp add: lower_alnum_def)
    qed
    with token_shape(1) [OF w] chars token_no_newline [OF w] show ?thesis by simp
  qed
  then have nl: "\<forall>w\<in>set vocabulary. w \<noteq> [] \<and> newline \<notin> set w" by blast
  from shape have V: "\<forall>w\<in>set vocabulary. CHR '','' \<notin> set w \<and> newline \<notin> set w" by blast
  note written = read_write_csv [OF V assms(2,3)]
  from split_join [OF nl] shape written read_show_int show ?thesis
    by blast
qed


theorem tokens_wellformed_witness:
  "tokenize_document ''Ab, c_d'' = [''ab'', ''c_d'']
   \<and> split_by_newline (join_words_with_newline [''ab'', ''c_d'']) = [''ab'', ''c_d'']
   \<and> newline \<notin> set ''ab'' \<and> CHR '','' \<notin> set ''c_d''
   \<and> write_csv [[1, 0], [2, 13]] [''ab'', ''c_d''] [''d0'', ''d1''] =
       ''document,ab,c_d'' @ [newline] @ ''d0,1,0'' @ [newline] @ ''d1,2,13'' @ [newline]
   \<and> read_csv (write_csv [[1, 0], [2, 13]] [''ab'', ''c_d''] [''d0'', ''d1'']) =
       \<lparr>csv_vocabulary = [''ab'', ''c_d''], csv_doc_names = [''d0'', ''d1''],
        csv_matrix = [[1, 0], [2, 13]]\<rparr>"
proof -
  have e: "tokenize_document ''Ab, c_d'' = [''ab'', ''c_d'']"
    by code_simp
  have w: "write_csv [[1, 0], [2, 13]] [''ab'', ''c_d''] [''d0'', ''d1''] =
       ''document,ab,c_d'' @ [newline] @ ''d0,1,0'' @ [newline] @ ''d1,2,13'' @ [newline]"
    by code_simp
  have h1: "\<forall>w\<in>set (tokenize_document ''Ab, c_d'').
      \<exists>content. w \<in> set (tokenize_document content)"
    by blast
  have h2: "\<forall>name\<in>set [''d0'', ''d1'']. CHR '','' \<notin> set name \<and> newline \<notin> set name"
    by (simp add: newline_def)
  have h3: "length [''d0'', ''d1''] = length [[1, 0], [2, 13 :: int]]"
    by simp
  note t = tokens_wellformed [OF h1 h2 h3, unfolded e]
  from t have shape: "\<forall>w\<in>set [''ab'', ''c_d'']. w \<noteq> []
      \<and> (\<forall>c\<in>set w. lower_alnum c \<or> c = CHR ''_'')
      \<and> newline \<notin> set w \<and> CHR '','' \<notin> set w"
    by (rule conjunct1)
  then have c: "newline \<notin> set ''ab''" "CHR '','' \<notin> set ''c_d''"
    by simp_all
  from t have r: "split_by_newline (join_words_with_newline [''ab'', ''c_d'']) = [''ab'', ''c_d'']"
    and b: "read_csv (write_csv [[1, 0], [2, 13]] [''ab'', ''c_d''] [''d0'', ''d1'']) =
       \<lparr>csv_vocabulary = [''ab'', ''c_d''], csv_doc_names = [''d0'', ''d1''],
        csv_matrix = [[1, 0], [2, 13]]\<rparr>"
    by blast+
  from e r c w b show ?thesis
    by (intro conjI)
qed

text \<open>
  Claim C9 as stated fails for the rows of the output file: the name of a document is
  written as it is, and a file name may hold a comma. The file \<open>d,1\<close> with the content
  \<open>t\<close> gives the row \<open>d,1,1\<close> under the header \<open>document,t\<close>: read by cells it is the
  document \<open>d\<close> with the two values 1 and 1, not the document \<open>d,1\<close> with the value 1.
\<close>

theorem comma_in_name_counterexample:
  "ser_written (run_serial [''d,1'' \<mapsto> ''t''] [''d,1'']) =
     Some \<lparr>csv_vocabulary = [''t''], csv_doc_names = [''d,1''], csv_matrix = [[1]]\<rparr>
   \<and> write_csv [[1]] [''t''] [''d,1''] = ''document,t'' @ [newline] @ ''d,1,1'' @ [newline]
   \<and> map (split_at (CHR '','')) (csv_lines (write_csv [[1]] [''t''] [''d,1''])) =
       [[''document'', ''t''], [''d'', ''1'', ''1'']]
   \<and> read_csv (write_csv [[1]] [''t''] [''d,1'']) =
       \<lparr>csv_vocabulary = [''t''], csv_doc_names = [''d''], csv_matrix = [[1, 1]]\<rparr>
   \<and> read_csv (write_csv [[1]] [''t''] [''d,1'']) \<noteq>
       \<lparr>csv_vocabulary = [''t''], csv_doc_names = [''d,1''], csv_matrix = [[1]]\<rparr>"
proof -
  have s: "ser_written (run_serial [''d,1'' \<mapsto> ''t''] [''d,1'']) =
     Some \<lparr>csv_vocabulary = [''t''], csv_doc_names = [''d,1''], csv_matrix = [[1]]\<rparr>"
    by code_simp
  have w: "write_csv [[1]] [''t''] [''d,1''] = ''document,t'' @ [newline] @ ''d,1,1'' @ [newline]"
    by code_simp
  have c: "map (split_at (CHR '','')) (csv_lines (write_csv [[1]] [''t''] [''d,1''])) =
       [[''document'', ''t''], [''d'', ''1'', ''1'']]"
    by code_simp
  have r: "read_csv (write_csv [[1]] [''t''] [''d,1'']) =
       \<lparr>csv_vocabulary = [''t''], csv_doc_names = [''d''], csv_matrix = [[1, 1]]\<rparr>"
    by code_simp
  have "read_csv (write_csv [[1]] [''t''] [''d,1'']) \<noteq>
       \<lparr>csv_vocabulary = [''t''], csv_doc_names = [''d,1''], csv_matrix = [[1]]\<rparr>"
    unfolding r by simp
  with s w c r show ?thesis
    by (intro conjI)
qed

end
